theory Spec2Isabelle
  imports Main
begin

section \<open>Per-base quality scores of Trycycler (\<^verbatim>\<open>trycycler/base_scores.py\<close>)\<close>

text \<open>
  A shallow embedding of the scoring pipeline of \<^verbatim>\<open>base_scores.py\<close>. Python integers
  are \<open>int\<close>, Python lists and NumPy integer arrays are \<open>int list\<close>, strings are
  \<open>string\<close>, and every exception the code can raise is a value \<open>Inl e\<close> of the result.
  The two constants of \<^verbatim>\<open>settings\<close> (\<^verbatim>\<open>BASE_SCORE_WINDOW\<close>, \<^verbatim>\<open>BASE_SCORE_THRESHOLD\<close>)
  and the aligner \<^verbatim>\<open>align_reads_to_seq\<close> live in other modules: they are parameters
  \<open>W\<close>, \<open>T\<close> and \<open>align\<close> of the functions that use them.
\<close>

subsection \<open>Data model\<close>

datatype error = AssertionError | IndexError | ValueError | OverflowError | MemoryError

text \<open>The fields of an alignment object that this module reads.\<close>

record alignment =
  ref_start :: int
  ref_end :: int
  cigar :: string

subsection \<open>\<^verbatim>\<open>get_expanded_cigar\<close>\<close>

text \<open>
  \<^verbatim>\<open>re.findall(r'\d+[IDX=]', a.cigar)\<close>: the scan tries a match at the current position;
  after a match it goes on behind the match, otherwise one character further. At a
  position, \<^verbatim>\<open>\d+\<close> takes the longest run of digits; giving digits back cannot help,
  since the character behind a shorter run is a digit and no operation letter.
  Characters are bytes here, so \<^verbatim>\<open>\d\<close> stands for the ten ASCII digits (see the
  interpreter's limits below).
\<close>

definition is_digit :: "char \<Rightarrow> bool" where
  "is_digit c = (c \<in> set ''0123456789'')"

definition is_op :: "char \<Rightarrow> bool" where
  "is_op c = (c \<in> set ''IDX='')"

definition match_token :: "string \<Rightarrow> (string \<times> string) option" where
  "match_token s =
     (let ds = takeWhile is_digit s in
      case dropWhile is_digit s of
        [] \<Rightarrow> None
      | c # rest \<Rightarrow> if ds \<noteq> [] \<and> is_op c then Some (ds @ [c], rest) else None)"

function re_findall :: "string \<Rightarrow> string list" where
  "re_findall [] = []"
| "re_findall (c # cs) =
     (case match_token (c # cs) of
        Some (tok, rest) \<Rightarrow> tok # re_findall rest
      | None \<Rightarrow> re_findall cs)"
  by pat_completeness auto
termination
proof (relation "measure length")
  show "wf (measure length)" by simp
next
  fix c :: char and cs x2 tok rest
  assume "match_token (c # cs) = Some x2" and "(tok, rest) = x2"
  then obtain d where "dropWhile is_digit (c # cs) = d # rest"
    unfolding match_token_def Let_def by (auto split: list.splits if_splits)
  then have "Suc (length rest) = length (dropWhile is_digit (c # cs))"
    by simp
  also have "\<dots> \<le> length (c # cs)"
    by (rule length_dropWhile_le)
  finally show "(rest, c # cs) \<in> measure length"
    by simp
next
  fix c :: char and cs
  show "(cs, c # cs) \<in> measure length" by simp
qed

text \<open>\<^verbatim>\<open>int(c[:-1])\<close> on a string of decimal digits.\<close>

definition digit_value :: "char \<Rightarrow> nat" where
  "digit_value c = of_char c - 48"

definition py_int :: "string \<Rightarrow> nat" where
  "py_int ds = foldl (\<lambda>acc c. 10 * acc + digit_value c) 0 ds"

definition cigar_parts :: "string \<Rightarrow> (nat \<times> char) list" where
  "cigar_parts s = map (\<lambda>c. (py_int (butlast c), last c)) (re_findall s)"

text \<open>The \<^verbatim>\<open>if\<close>/\<^verbatim>\<open>elif\<close> chain on the letter; \<open>None\<close> is the \<^verbatim>\<open>assert False\<close> branch.\<close>

definition letter_code :: "char \<Rightarrow> int option" where
  "letter_code letter =
     (if letter = CHR ''='' then Some 0
      else if letter = CHR ''X'' then Some 1
      else if letter = CHR ''I'' then Some 2
      else if letter = CHR ''D'' then Some 3
      else None)"

text \<open>\<^verbatim>\<open>for _ in range(num): expanded_cigar[i] = v; i += 1\<close>\<close>

fun write_run :: "nat \<Rightarrow> int \<Rightarrow> int list \<times> nat \<Rightarrow> error + (int list \<times> nat)" where
  "write_run 0 v (xs, i) = Inr (xs, i)"
| "write_run (Suc n) v (xs, i) =
     (if i < length xs then write_run n v (xs[i := v], Suc i) else Inl IndexError)"

fun expand_parts :: "(nat \<times> char) list \<Rightarrow> int list \<times> nat \<Rightarrow> error + (int list \<times> nat)" where
  "expand_parts [] st = Inr st"
| "expand_parts ((num, letter) # ps) st =
     (case letter_code letter of
        None \<Rightarrow> Inl AssertionError
      | Some v \<Rightarrow>
          (case write_run num v st of
             Inl e \<Rightarrow> Inl e
           | Inr st' \<Rightarrow> expand_parts ps st'))"

definition get_expanded_cigar :: "alignment \<Rightarrow> error + int list" where
  "get_expanded_cigar a =
     (let parts = cigar_parts (cigar a);
          expanded_cigar_size = sum_list (map fst parts)
      in case expand_parts parts (replicate expanded_cigar_size 0, 0) of
           Inl e \<Rightarrow> Inl e
         | Inr (expanded_cigar, i) \<Rightarrow>
             if i = expanded_cigar_size then Inr expanded_cigar else Inl AssertionError)"

subsection \<open>The interpreter's limits in \<^verbatim>\<open>get_expanded_cigar\<close>\<close>

text \<open>
  The model above takes Python's integers and lists as unbounded and its strings as
  bytes. Three things the interpreter does in \<^verbatim>\<open>get_expanded_cigar\<close> are outside of that
  and are made explicit here, in front of the unbounded model:
  \<^item> the pattern is a \<^verbatim>\<open>str\<close> pattern, for which \<^verbatim>\<open>\d\<close> also matches the decimal digits
    of Unicode outside ASCII, and \<^verbatim>\<open>int\<close> converts them; the model is exact for ASCII
    strings (\<open>is_ascii\<close>);
  \<^item> \<^verbatim>\<open>int(c[:-1])\<close> raises \<^verbatim>\<open>ValueError\<close> when the string has more digit characters
    than \<^verbatim>\<open>sys.get_int_max_str_digits()\<close> (4300 by default where the limit exists,
    0 for no limit);
  \<^item> \<^verbatim>\<open>[0] * expanded_cigar_size\<close> raises \<^verbatim>\<open>OverflowError\<close> when the size is above
    \<^verbatim>\<open>sys.maxsize\<close>, and \<^verbatim>\<open>MemoryError\<close> when it is above what the memory holds
    (\<open>capacity\<close>, which depends on the machine).
\<close>

definition is_ascii :: "char \<Rightarrow> bool" where
  "is_ascii c = (of_char c < (128::nat))"

record interpreter_limits =
  int_max_str_digits :: nat
  maxsize :: nat
  capacity :: nat

text \<open>The check of \<^verbatim>\<open>int\<close> on a token \<open>c\<close>, whose last character is the letter.\<close>

definition too_many_digits :: "interpreter_limits \<Rightarrow> string \<Rightarrow> bool" where
  "too_many_digits lim c =
     (0 < int_max_str_digits lim \<and> int_max_str_digits lim < length (butlast c))"

definition get_expanded_cigar_limited :: "interpreter_limits \<Rightarrow> alignment \<Rightarrow> error + int list" where
  "get_expanded_cigar_limited lim a =
     (if list_ex (too_many_digits lim) (re_findall (cigar a)) then Inl ValueError
      else let expanded_cigar_size = sum_list (map fst (cigar_parts (cigar a)))
        in if maxsize lim < expanded_cigar_size then Inl OverflowError
           else if capacity lim < expanded_cigar_size then Inl MemoryError
           else get_expanded_cigar a)"

subsection \<open>\<^verbatim>\<open>get_pass_fail\<close>\<close>

text \<open>
  \<^verbatim>\<open>numpy.convolve(a, v, 'same')\<close>. NumPy swaps the arguments when \<open>v\<close> is the longer
  one, rejects an empty argument, and returns \<open>max (length a) (length v)\<close> entries of the
  full discrete convolution \<open>(a * v)[n] = \<Sum>m. a[m] * v[n - m]\<close>, starting at offset
  \<open>(min (length a) (length v) - 1) div 2\<close>.
\<close>

definition np_full_at :: "int list \<Rightarrow> int list \<Rightarrow> nat \<Rightarrow> int" where
  "np_full_at a v n =
     (\<Sum>m\<leftarrow>[0..<length a]. if m \<le> n \<and> n - m < length v then a ! m * v ! (n - m) else 0)"

definition np_convolve_same :: "int list \<Rightarrow> int list \<Rightarrow> error + int list" where
  "np_convolve_same a0 v0 =
     (let a = (if length v0 > length a0 then v0 else a0);
          v = (if length v0 > length a0 then a0 else v0)
      in if length a = 0 then Inl ValueError
         else if length v = 0 then Inl ValueError
         else Inr (map (\<lambda>k. np_full_at a v (k + (length v - 1) div 2)) [0..<length a]))"

definition get_pass_fail :: "nat \<Rightarrow> int \<Rightarrow> int list \<Rightarrow> error + int list" where
  "get_pass_fail W T expanded_cigar =
     (let simplified_expanded_cigar = map (\<lambda>x. if x > 1 then 1 else x) expanded_cigar
      in case np_convolve_same simplified_expanded_cigar (replicate W 1) of
           Inl e \<Rightarrow> Inl e
         | Inr pass_fail \<Rightarrow>
             Inr (map (\<lambda>x. if x \<ge> T then 1 else x)
                   (map (\<lambda>x. if x < T then 0 else x) pass_fail)))"

subsection \<open>\<^verbatim>\<open>get_cigar_scores_forward\<close> and \<^verbatim>\<open>get_cigar_scores_reverse\<close>\<close>

text \<open>
  The two functions have the same loop body and differ in the order of the indices
  only, so the loop takes the list of indices that \<^verbatim>\<open>range\<close> yields.
\<close>

definition next_score :: "int list \<Rightarrow> int list \<Rightarrow> nat \<Rightarrow> int \<Rightarrow> error + int" where
  "next_score expanded_cigar pass_fail i score =
     (if i \<ge> length pass_fail then Inl IndexError
      else if pass_fail ! i = 1 then Inr 0
      else if i \<ge> length expanded_cigar then Inl IndexError
      else if expanded_cigar ! i = 0 then Inr (score + 1)
      else Inr (if score - 1 < 0 then 0 else score - 1))"

fun cigar_scores_loop ::
  "int list \<Rightarrow> int list \<Rightarrow> nat list \<Rightarrow> int list \<times> int \<Rightarrow> error + int list" where
  "cigar_scores_loop expanded_cigar pass_fail [] (scores, score) = Inr scores"
| "cigar_scores_loop expanded_cigar pass_fail (i # is) (scores, score) =
     (case next_score expanded_cigar pass_fail i score of
        Inl e \<Rightarrow> Inl e
      | Inr score' \<Rightarrow>
          if i \<ge> length scores then Inl IndexError
          else cigar_scores_loop expanded_cigar pass_fail is (scores[i := score'], score'))"

definition get_cigar_scores_forward :: "int list \<Rightarrow> int list \<Rightarrow> error + int list" where
  "get_cigar_scores_forward expanded_cigar pass_fail =
     cigar_scores_loop expanded_cigar pass_fail [0..<length expanded_cigar]
       (replicate (length expanded_cigar) 0, 0)"

definition get_cigar_scores_reverse :: "int list \<Rightarrow> int list \<Rightarrow> error + int list" where
  "get_cigar_scores_reverse expanded_cigar pass_fail =
     cigar_scores_loop expanded_cigar pass_fail (rev [0..<length expanded_cigar])
       (replicate (length expanded_cigar) 0, 0)"

subsection \<open>\<^verbatim>\<open>combine_forward_and_reverse_scores\<close>\<close>

text \<open>
  The loop runs over \<^verbatim>\<open>enumerate(forward_scores)\<close>; the state is the output list and the
  write index \<open>j\<close>. A write behind the end of \<^verbatim>\<open>final_scores\<close> raises \<^verbatim>\<open>IndexError\<close>.
\<close>

fun combine_loop ::
  "int list \<Rightarrow> int list \<Rightarrow> (nat \<times> int) list \<Rightarrow> int list \<times> nat \<Rightarrow> error + (int list \<times> nat)" where
  "combine_loop reverse_scores expanded_cigar [] (final_scores, j) = Inr (final_scores, j)"
| "combine_loop reverse_scores expanded_cigar ((i, f) # rest) (final_scores, j) =
     (if i \<ge> length reverse_scores then Inl IndexError
      else let r = reverse_scores ! i in
        if i \<ge> length expanded_cigar then Inl IndexError
        else if expanded_cigar ! i \<noteq> 2 then
          (if j \<ge> length final_scores then Inl IndexError
           else combine_loop reverse_scores expanded_cigar rest
                  (final_scores[j := (if f < r then f else r)], Suc j))
        else combine_loop reverse_scores expanded_cigar rest (final_scores, j))"

definition combine_forward_and_reverse_scores ::
  "alignment \<Rightarrow> int list \<Rightarrow> int list \<Rightarrow> int list \<Rightarrow> error + int list" where
  "combine_forward_and_reverse_scores a forward_scores reverse_scores expanded_cigar =
     (let final_scores = replicate (nat (ref_end a - ref_start a)) (0::int)
      in if length forward_scores \<noteq> length reverse_scores then Inl AssertionError
         else case combine_loop reverse_scores expanded_cigar (enumerate 0 forward_scores)
                     (final_scores, 0) of
                Inl e \<Rightarrow> Inl e
              | Inr (final_scores', j) \<Rightarrow>
                  if length final_scores' = j then Inr final_scores' else Inl AssertionError)"

subsection \<open>\<^verbatim>\<open>get_alignment_scores\<close>\<close>

definition get_alignment_scores :: "nat \<Rightarrow> int \<Rightarrow> alignment \<Rightarrow> error + int list" where
  "get_alignment_scores W T a =
     (case get_expanded_cigar a of
        Inl e \<Rightarrow> Inl e
      | Inr expanded_cigar \<Rightarrow>
     (case get_pass_fail W T expanded_cigar of
        Inl e \<Rightarrow> Inl e
      | Inr pass_fail \<Rightarrow>
     (case get_cigar_scores_forward expanded_cigar pass_fail of
        Inl e \<Rightarrow> Inl e
      | Inr forward_scores \<Rightarrow>
     (case get_cigar_scores_reverse expanded_cigar pass_fail of
        Inl e \<Rightarrow> Inl e
      | Inr reverse_scores \<Rightarrow>
          combine_forward_and_reverse_scores a forward_scores reverse_scores
            expanded_cigar))))"

subsection \<open>\<^verbatim>\<open>get_one_seq_per_base_scores\<close>\<close>

text \<open>
  Python list indexing with an \<open>int\<close>: an index in \<open>[-len, 0)\<close> counts from the end,
  an index outside \<open>[-len, len)\<close> raises \<^verbatim>\<open>IndexError\<close> (here \<open>None\<close>).
\<close>

definition py_index :: "'a list \<Rightarrow> int \<Rightarrow> nat option" where
  "py_index xs i =
     (let n = int (length xs)
      in if 0 \<le> i \<and> i < n then Some (nat i)
         else if - n \<le> i \<and> i < 0 then Some (nat (n + i))
         else None)"

text \<open>
  \<^verbatim>\<open>for j, s in enumerate(alignment_scores): per_base_scores[a.ref_start + j] += s\<close>
\<close>

fun add_alignment_scores :: "int \<Rightarrow> (nat \<times> int) list \<Rightarrow> int list \<Rightarrow> error + int list" where
  "add_alignment_scores start [] per_base_scores = Inr per_base_scores"
| "add_alignment_scores start ((j, s) # rest) per_base_scores =
     (let ref_pos = start + int j
      in case py_index per_base_scores ref_pos of
           None \<Rightarrow> Inl IndexError
         | Some p \<Rightarrow>
             add_alignment_scores start rest
               (per_base_scores[p := per_base_scores ! p + s]))"

text \<open>\<^verbatim>\<open>for i, a in enumerate(alignments): ...\<close>\<close>

fun accumulate :: "nat \<Rightarrow> int \<Rightarrow> alignment list \<Rightarrow> int list \<Rightarrow> error + int list" where
  "accumulate W T [] per_base_scores = Inr per_base_scores"
| "accumulate W T (a # rest) per_base_scores =
     (case get_alignment_scores W T a of
        Inl e \<Rightarrow> Inl e
      | Inr alignment_scores \<Rightarrow>
          (case add_alignment_scores (ref_start a) (enumerate 0 alignment_scores)
                  per_base_scores of
             Inl e \<Rightarrow> Inl e
           | Inr per_base_scores' \<Rightarrow> accumulate W T rest per_base_scores'))"

text \<open>The loop that collapses the two halves: \<^verbatim>\<open>for i in range(seq_len): ...\<close>\<close>

fun undouble_loop :: "nat \<Rightarrow> int list \<Rightarrow> nat list \<Rightarrow> int list \<Rightarrow> error + int list" where
  "undouble_loop seq_len per_base_scores [] non_doubled = Inr non_doubled"
| "undouble_loop seq_len per_base_scores (i # is) non_doubled =
     (if i \<ge> length per_base_scores then Inl IndexError
      else let score_1 = per_base_scores ! i in
        if i + seq_len \<ge> length per_base_scores then Inl IndexError
        else let score_2 = per_base_scores ! (i + seq_len) in
          if i \<ge> length non_doubled then Inl IndexError
          else undouble_loop seq_len per_base_scores is
                 (non_doubled[i := (if score_1 > score_2 then score_1 else score_2)]))"

definition undouble :: "nat \<Rightarrow> int list \<Rightarrow> error + int list" where
  "undouble seq_len per_base_scores =
     undouble_loop seq_len per_base_scores [0..<seq_len] (replicate seq_len 0)"

text \<open>
  The alignments that are scored (lines 46 to 52): for a circular sequence the reads
  are aligned to the doubled sequence and the list comprehension keeps the alignments
  with \<^verbatim>\<open>a.ref_start < seq_len\<close>. The result is the reference and the alignments.
\<close>

definition reference_and_alignments ::
  "('r \<Rightarrow> string \<Rightarrow> 't \<Rightarrow> alignment list) \<Rightarrow> string \<Rightarrow> 'r \<Rightarrow> bool \<Rightarrow> 't
     \<Rightarrow> string \<times> alignment list" where
  "reference_and_alignments align seq reads circular threads =
     (let seq_len = int (length seq)
      in if circular then
           (let ref_seq = seq @ seq;
                alignments = align reads ref_seq threads
            in (ref_seq, filter (\<lambda>a. ref_start a < seq_len) alignments))
         else
           (let ref_seq = seq
            in (ref_seq, align reads ref_seq threads)))"

definition get_one_seq_per_base_scores ::
  "nat \<Rightarrow> int \<Rightarrow> ('r \<Rightarrow> string \<Rightarrow> 't \<Rightarrow> alignment list) \<Rightarrow> string \<Rightarrow> 'r \<Rightarrow> bool \<Rightarrow> 't
     \<Rightarrow> error + int list" where
  "get_one_seq_per_base_scores W T align seq reads circular threads =
     (let seq_len = length seq;
          (ref_seq, alignments) = reference_and_alignments align seq reads circular threads
      in case accumulate W T alignments (replicate (length ref_seq) 0) of
           Inl e \<Rightarrow> Inl e
         | Inr per_base_scores \<Rightarrow>
             if circular then undouble seq_len per_base_scores
             else Inr per_base_scores)"

subsection \<open>The rules of the specification\<close>

text \<open>
  The rule of the hysteresis scorer in the words of the specification: a failing column
  resets the running score, a match adds one, anything else takes one away but not
  below zero.
\<close>

definition hysteresis_rule :: "bool \<Rightarrow> bool \<Rightarrow> int \<Rightarrow> int" where
  "hysteresis_rule failing is_match running =
     (if failing then 0
      else if is_match then running + 1
      else max 0 (running - 1))"

text \<open>
  The output of the score combiner in the words of the specification: the smaller of
  the forward and the reverse score of every column that is not an insertion (code 2),
  in column order.
\<close>

definition combined_spec :: "int list \<Rightarrow> int list \<Rightarrow> int list \<Rightarrow> int list" where
  "combined_spec forward reverse expanded_cigar =
     map (\<lambda>i. min (forward ! i) (reverse ! i))
       (filter (\<lambda>i. expanded_cigar ! i \<noteq> 2) [0..<length forward])"

text \<open>What the combiner's loop appends for a list of (index, forward score) pairs.\<close>

definition selected :: "int list \<Rightarrow> int list \<Rightarrow> (nat \<times> int) list \<Rightarrow> int list" where
  "selected rs ec ps = map (\<lambda>(i, f). min f (rs ! i)) (filter (\<lambda>(i, f). ec ! i \<noteq> 2) ps)"

text \<open>
  A stand-in for the external aligner in concrete runs: it returns the given
  alignments whatever the reads, the reference and the thread count are.
\<close>

definition constant_aligner :: "alignment list \<Rightarrow> unit \<Rightarrow> string \<Rightarrow> unit \<Rightarrow> alignment list" where
  "constant_aligner alignments reads ref_seq threads = alignments"

text \<open>
  The expansion of a list of (count, letter) pairs: every operation code repeated
  count times, in order.
\<close>

definition expansion :: "(nat \<times> char) list \<Rightarrow> int list" where
  "expansion parts =
     concat (map (\<lambda>(num, letter).
                    case letter_code letter of
                      Some v \<Rightarrow> replicate num v
                    | None \<Rightarrow> []) parts)"

text \<open>
  The failure mask in the words of the specification: the number of non-match columns
  in the window around column \<open>i\<close>, cut off at both ends of the alignment, compared with
  the threshold. The window of size \<open>W\<close> reaches \<open>W div 2\<close> columns to the left and
  \<open>(W - 1) div 2\<close> columns to the right, which is centred for an odd \<open>W\<close>.
\<close>

definition window_nonmatch_count :: "nat \<Rightarrow> int list \<Rightarrow> nat \<Rightarrow> nat" where
  "window_nonmatch_count W expanded_cigar i =
     length (filter (\<lambda>j. expanded_cigar ! j \<noteq> 0 \<and> i \<le> j + W div 2 \<and> j \<le> i + (W - 1) div 2)
               [0..<length expanded_cigar])"

definition failure_mask_spec :: "nat \<Rightarrow> int \<Rightarrow> int list \<Rightarrow> int list" where
  "failure_mask_spec W T expanded_cigar =
     map (\<lambda>i. if int (window_nonmatch_count W expanded_cigar i) < T then 0 else 1)
       [0..<length expanded_cigar]"

text \<open>
  The interface contract of the aligner for a reference of \<open>n\<close> characters: the
  alignment lies inside the reference, and the columns of its CIGAR that are no
  insertions are as many as the reference positions it covers.
\<close>

definition alignment_fits :: "nat \<Rightarrow> alignment \<Rightarrow> bool" where
  "alignment_fits n a \<longleftrightarrow>
     0 \<le> ref_start a \<and> ref_start a < ref_end a \<and> ref_end a \<le> int n \<and>
     int (length (filter (\<lambda>v. v \<noteq> 2) (expansion (cigar_parts (cigar a)))))
       = ref_end a - ref_start a"

section \<open>Properties\<close>

subsection \<open>The directional scorer\<close>

lemma next_score_rule:
  "i < length pf \<Longrightarrow> i < length ec \<Longrightarrow>
   next_score ec pf i s = Inr (hysteresis_rule (pf ! i = 1) (ec ! i = 0) s)"
  by (simp add: next_score_def hysteresis_rule_def max_def)

lemma cigar_scores_loop_length:
  "cigar_scores_loop ec pf is (scores, score) = Inr out \<Longrightarrow> length out = length scores"
  by (induction "is" arbitrary: scores score) (auto split: sum.splits if_splits)

lemma cigar_scores_loop_unchanged:
  "cigar_scores_loop ec pf is (scores, score) = Inr out \<Longrightarrow> j \<notin> set is \<Longrightarrow>
   out ! j = scores ! j"
  by (induction "is" arbitrary: scores score) (auto split: sum.splits if_splits)

lemma cigar_scores_loop_returns:
  "\<forall>i\<in>set is. i < length pf \<and> i < length ec \<and> i < length scores \<Longrightarrow>
   \<exists>out. cigar_scores_loop ec pf is (scores, score) = Inr out"
  by (induction "is" arbitrary: scores score) (auto simp: next_score_rule)

lemma cigar_scores_loop_value:
  "cigar_scores_loop ec pf is (scores, score) = Inr out \<Longrightarrow> distinct is \<Longrightarrow>
   k < length is \<Longrightarrow>
   next_score ec pf (is ! k) (if k = 0 then score else out ! (is ! (k - 1)))
     = Inr (out ! (is ! k))"
proof (induction "is" arbitrary: scores score k)
  case Nil
  then show ?case by simp
next
  case (Cons i "is")
  from Cons.prems(1) obtain s' where
    s': "next_score ec pf i score = Inr s'" and
    i: "i < length scores" and
    rest: "cigar_scores_loop ec pf is (scores[i := s'], s') = Inr out"
    by (auto split: sum.splits if_splits)
  from Cons.prems(2) have ni: "i \<notin> set is" and d: "distinct is" by simp_all
  have at_i: "out ! i = s'"
    using cigar_scores_loop_unchanged [OF rest ni] i by simp
  show ?case
  proof (cases k)
    case 0
    then show ?thesis using s' at_i by simp
  next
    case (Suc k')
    with Cons.prems(3) have k': "k' < length is" by simp
    from Cons.IH [OF rest d k'] show ?thesis
      using Suc at_i by (cases k') simp_all
  qed
qed

text \<open>
  Claim C1. When the failure mask is as long as the expanded CIGAR, both scans return
  a score list of that length, and every column's score is the rule of the scorer
  applied to the running score: reset to 0 where the mask is 1, else plus 1 on a
  match, else minus 1 floored at 0. The running score is 0 at the first column of
  the scan (index 0 forward, the last index in reverse) and otherwise the score of
  the column scanned just before.
\<close>

theorem directional_scores_follow_rule:
  assumes "length pass_fail = length expanded_cigar"
  shows "\<exists>fs rs.
     get_cigar_scores_forward expanded_cigar pass_fail = Inr fs \<and>
     get_cigar_scores_reverse expanded_cigar pass_fail = Inr rs \<and>
     length fs = length expanded_cigar \<and> length rs = length expanded_cigar \<and>
     (\<forall>i<length expanded_cigar.
        fs ! i = hysteresis_rule (pass_fail ! i = 1) (expanded_cigar ! i = 0)
                   (if i = 0 then 0 else fs ! (i - 1))) \<and>
     (\<forall>i<length expanded_cigar.
        rs ! i = hysteresis_rule (pass_fail ! i = 1) (expanded_cigar ! i = 0)
                   (if i = length expanded_cigar - 1 then 0 else rs ! (i + 1)))"
proof -
  let ?n = "length expanded_cigar"
  let ?init = "(replicate ?n (0::int), 0::int)"
  have "\<exists>out. cigar_scores_loop expanded_cigar pass_fail [0..<?n] ?init = Inr out"
    by (rule cigar_scores_loop_returns) (simp add: assms)
  then obtain fs where fs: "cigar_scores_loop expanded_cigar pass_fail [0..<?n] ?init = Inr fs"
    by blast
  have "\<exists>out. cigar_scores_loop expanded_cigar pass_fail (rev [0..<?n]) ?init = Inr out"
    by (rule cigar_scores_loop_returns) (simp add: assms)
  then obtain rs where
    rs: "cigar_scores_loop expanded_cigar pass_fail (rev [0..<?n]) ?init = Inr rs"
    by blast
  have fwd: "fs ! i = hysteresis_rule (pass_fail ! i = 1) (expanded_cigar ! i = 0)
                   (if i = 0 then 0 else fs ! (i - 1))" if "i < ?n" for i
  proof -
    have "next_score expanded_cigar pass_fail ([0..<?n] ! i)
            (if i = 0 then 0 else fs ! ([0..<?n] ! (i - 1))) = Inr (fs ! ([0..<?n] ! i))"
      by (rule cigar_scores_loop_value [OF fs]) (simp_all add: that)
    moreover have "[0..<?n] ! (i - 1) = i - 1" "[0..<?n] ! i = i"
      using that by simp_all
    ultimately show ?thesis
      using that assms by (cases "i = 0") (simp_all add: next_score_rule)
  qed
  have bwd: "rs ! i = hysteresis_rule (pass_fail ! i = 1) (expanded_cigar ! i = 0)
                   (if i = ?n - 1 then 0 else rs ! (i + 1))" if "i < ?n" for i
  proof -
    let ?k = "?n - 1 - i"
    have k: "?k < length (rev [0..<?n])" using that by simp
    have idx: "rev [0..<?n] ! ?k = i" using that by (simp add: rev_nth)
    have prev: "rev [0..<?n] ! (?k - 1) = i + 1" if "?k \<noteq> 0"
      using that \<open>i < ?n\<close> by (simp add: rev_nth)
    have "next_score expanded_cigar pass_fail (rev [0..<?n] ! ?k)
            (if ?k = 0 then 0 else rs ! (rev [0..<?n] ! (?k - 1)))
          = Inr (rs ! (rev [0..<?n] ! ?k))"
      by (rule cigar_scores_loop_value [OF rs _ k]) simp
    moreover have "?k = 0 \<longleftrightarrow> i = ?n - 1" using that by auto
    ultimately show ?thesis
      using that assms idx prev by (simp add: next_score_rule split: if_splits)
  qed
  have "length fs = ?n" "length rs = ?n"
    using cigar_scores_loop_length [OF fs] cigar_scores_loop_length [OF rs] by simp_all
  with fs rs fwd bwd show ?thesis
    unfolding get_cigar_scores_forward_def get_cigar_scores_reverse_def by blast
qed

theorem directional_scores_follow_rule_witness:
  "length [0, 0, 0, 1 :: int] = length [0, 0, 1, 0 :: int] \<and>
   get_cigar_scores_forward [0, 0, 1, 0] [0, 0, 0, 1] = Inr [1, 2, 1, 0] \<and>
   get_cigar_scores_reverse [0, 0, 1, 0] [0, 0, 0, 1] = Inr [2, 1, 0, 0]"
  using directional_scores_follow_rule [of "[0, 0, 0, 1]" "[0, 0, 1, 0]"]
  by (simp add: get_cigar_scores_forward_def get_cigar_scores_reverse_def next_score_def
      upt_rec)

subsection \<open>The score combiner\<close>

lemma selected_Cons:
  "selected rs ec ((i, f) # ps) =
     (if ec ! i \<noteq> 2 then min f (rs ! i) # selected rs ec ps else selected rs ec ps)"
  by (simp add: selected_def)

lemma selected_Nil: "selected rs ec [] = []"
  by (simp add: selected_def)

lemma combine_loop_eq:
  "\<forall>(i, f) \<in> set ps. i < length rs \<and> i < length ec \<Longrightarrow> j \<le> length final \<Longrightarrow>
   combine_loop rs ec ps (final, j) =
     (if j + length (selected rs ec ps) \<le> length final
      then Inr (take j final @ selected rs ec ps @ drop (j + length (selected rs ec ps)) final,
                j + length (selected rs ec ps))
      else Inl IndexError)"
proof (induction ps arbitrary: final j)
  case Nil
  then show ?case by (simp add: selected_Nil)
next
  case (Cons p ps)
  obtain i f where p: "p = (i, f)" by (cases p)
  from Cons.prems p have i: "i < length rs" "i < length ec"
    and rest: "\<forall>(i, f) \<in> set ps. i < length rs \<and> i < length ec" by auto
  show ?case
  proof (cases "ec ! i \<noteq> 2")
    case False
    then show ?thesis using i p Cons.IH [OF rest Cons.prems(2)] by (simp add: selected_Cons)
  next
    case True
    show ?thesis
    proof (cases "j < length final")
      case False
      then show ?thesis using i p True by (simp add: selected_Cons)
    next
      case jl: True
      let ?m = "min f (rs ! i)"
      have upd: "take (Suc j) (final[j := ?m]) = take j final @ [?m]"
        using jl by (simp add: take_Suc_conv_app_nth)
      have m: "(if f < rs ! i then f else rs ! i) = ?m" by (simp add: min_def)
      show ?thesis
        using i p True jl Cons.IH [OF rest, of "Suc j" "final[j := ?m]"] upd
        by (simp add: selected_Cons m Let_def)
    qed
  qed
qed

lemma selected_enumerate:
  "length fs \<le> length rs \<Longrightarrow>
   selected rs ec (enumerate 0 fs) = combined_spec fs rs ec"
proof -
  have "selected rs ec (enumerate 0 fs)
        = map (\<lambda>i. min (fs ! i) (rs ! i)) (filter (\<lambda>i. ec ! i \<noteq> 2) [0..<length fs])"
    unfolding selected_def enumerate_eq_zip
    by (induction fs rule: rev_induct) (simp_all add: nth_append)
  then show ?thesis by (simp add: combined_spec_def)
qed





subsection \<open>Accumulating one alignment\<close>

lemma py_index_bound: "py_index xs i = Some p \<Longrightarrow> p < length xs"
  by (auto simp: py_index_def Let_def split: if_splits)

lemma py_index_nonneg:
  "0 \<le> i \<Longrightarrow> nat i < length xs \<Longrightarrow> py_index xs i = Some (nat i)"
  by (auto simp: py_index_def Let_def)

lemma add_alignment_scores_length:
  "add_alignment_scores start ps pbs = Inr out \<Longrightarrow> length out = length pbs"
  by (induction ps arbitrary: pbs) (auto simp: Let_def split: option.splits)

lemma add_alignment_scores_in_range:
  "0 \<le> start \<Longrightarrow> nat start + k + length ss \<le> length pbs \<Longrightarrow>
   \<exists>out. add_alignment_scores start (enumerate k ss) pbs = Inr out \<and>
     length out = length pbs \<and>
     (\<forall>p < length pbs. out ! p =
        (if nat start + k \<le> p \<and> p < nat start + k + length ss
         then pbs ! p + ss ! (p - (nat start + k)) else pbs ! p))"
proof (induction ss arbitrary: k pbs)
  case Nil
  then show ?case by simp
next
  case (Cons s ss)
  let ?q = "nat start + k"
  let ?pbs = "pbs[?q := pbs ! ?q + s]"
  have q: "?q < length pbs" using Cons.prems(2) by simp
  have idx: "py_index pbs (start + int k) = Some ?q"
    using py_index_nonneg [of "start + int k" pbs] Cons.prems(1) q
    by (simp add: nat_add_distrib)
  have "nat start + Suc k + length ss \<le> length ?pbs"
    using Cons.prems(2) by simp
  from Cons.IH [OF Cons.prems(1) this] obtain out where
    out: "add_alignment_scores start (enumerate (Suc k) ss) ?pbs = Inr out"
      "length out = length pbs"
      "\<forall>p < length pbs. out ! p =
        (if nat start + Suc k \<le> p \<and> p < nat start + Suc k + length ss
         then ?pbs ! p + ss ! (p - (nat start + Suc k)) else ?pbs ! p)"
    by auto
  have run: "add_alignment_scores start (enumerate k (s # ss)) pbs = Inr out"
    using idx out(1) by (simp add: Let_def)
  have "out ! p =
        (if ?q \<le> p \<and> p < ?q + length (s # ss)
         then pbs ! p + (s # ss) ! (p - ?q) else pbs ! p)" if "p < length pbs" for p
  proof -
    consider "p < ?q" | "p = ?q" | "?q < p" by linarith
    then show ?thesis
    proof cases
      case 1
      then show ?thesis using out(3) that by simp
    next
      case 2
      then show ?thesis using out(3) that by simp
    next
      case 3
      then have "(s # ss) ! (p - ?q) = ss ! (p - (nat start + Suc k))"
        by (simp add: nth_Cons')
      then show ?thesis using out(3) that 3 by auto
    qed
  qed
  with run out(2) show ?case by blast
qed

text \<open>
  Claim C10. For an alignment inside the reference
  (\<open>0 \<le> ref_start < ref_end \<le> length of the accumulator\<close>) with a combined score of
  \<open>ref_end - ref_start\<close> entries, every index \<open>ref_start + j\<close> that the accumulation
  writes is a position of the accumulator (no \<^verbatim>\<open>IndexError\<close>, no wrap-around from a
  negative index), the loop returns an accumulator of the same length, and only the
  positions of \<open>[ref_start, ref_end)\<close> have changed, each by its score.
\<close>

theorem accumulation_writes_in_bounds:
  assumes "0 \<le> ref_start a" and "ref_start a < ref_end a"
    and "ref_end a \<le> int (length per_base_scores)"
    and "int (length alignment_scores) = ref_end a - ref_start a"
  shows "(\<forall>j < length alignment_scores.
            py_index per_base_scores (ref_start a + int j) = Some (nat (ref_start a) + j) \<and>
            nat (ref_start a) + j < length per_base_scores) \<and>
         (\<exists>out. add_alignment_scores (ref_start a) (enumerate 0 alignment_scores)
                   per_base_scores = Inr out \<and>
            length out = length per_base_scores \<and>
            (\<forall>p < length per_base_scores. out ! p =
               (if nat (ref_start a) \<le> p \<and> p < nat (ref_end a)
                then per_base_scores ! p + alignment_scores ! (p - nat (ref_start a))
                else per_base_scores ! p)))"
proof -
  have len: "nat (ref_start a) + length alignment_scores = nat (ref_end a)"
    using assms by linarith
  have fits: "nat (ref_start a) + 0 + length alignment_scores \<le> length per_base_scores"
    using assms len by linarith
  have writes: "py_index per_base_scores (ref_start a + int j) = Some (nat (ref_start a) + j) \<and>
            nat (ref_start a) + j < length per_base_scores"
    if "j < length alignment_scores" for j
  proof -
    have "nat (ref_start a + int j) < length per_base_scores"
      using that fits assms(1) by linarith
    then show ?thesis
      using py_index_nonneg [of "ref_start a + int j" per_base_scores] assms(1)
      by (simp add: nat_add_distrib)
  qed
  have "\<exists>out. add_alignment_scores (ref_start a) (enumerate 0 alignment_scores)
                   per_base_scores = Inr out \<and>
            length out = length per_base_scores \<and>
            (\<forall>p < length per_base_scores. out ! p =
               (if nat (ref_start a) \<le> p \<and> p < nat (ref_end a)
                then per_base_scores ! p + alignment_scores ! (p - nat (ref_start a))
                else per_base_scores ! p))"
    using add_alignment_scores_in_range [OF assms(1) fits] by (simp only: len add_0_right)
  with writes show ?thesis by blast
qed

theorem accumulation_writes_in_bounds_witness:
  "0 \<le> ref_start \<lparr>ref_start = 1, ref_end = 3, cigar = ''2=''\<rparr> \<and>
   ref_start \<lparr>ref_start = 1, ref_end = 3, cigar = ''2=''\<rparr>
     < ref_end \<lparr>ref_start = 1, ref_end = 3, cigar = ''2=''\<rparr> \<and>
   ref_end \<lparr>ref_start = 1, ref_end = 3, cigar = ''2=''\<rparr> \<le> int (length [5, 0, 7, 0 :: int]) \<and>
   int (length [1, 1 :: int])
     = ref_end \<lparr>ref_start = 1, ref_end = 3, cigar = ''2=''\<rparr>
       - ref_start \<lparr>ref_start = 1, ref_end = 3, cigar = ''2=''\<rparr> \<and>
   add_alignment_scores 1 (enumerate 0 [1, 1]) [5, 0, 7, 0] = Inr [5, 1, 8, 0]"
  using accumulation_writes_in_bounds
    [of "\<lparr>ref_start = 1, ref_end = 3, cigar = ''2=''\<rparr>" "[5, 0, 7, 0]" "[1, 1]"]
  by (simp add: py_index_def)

subsection \<open>Folding the doubled accumulator\<close>

lemma undouble_loop_eq:
  "\<forall>i \<in> set is. i + seq_len < length pbs \<and> i < length nd \<Longrightarrow>
   \<exists>out. undouble_loop seq_len pbs is nd = Inr out \<and> length out = length nd \<and>
     (\<forall>i < length nd. out ! i =
        (if i \<in> set is then max (pbs ! i) (pbs ! (i + seq_len)) else nd ! i))"
proof (induction "is" arbitrary: nd)
  case Nil
  then show ?case by simp
next
  case (Cons i "is")
  let ?v = "if pbs ! i > pbs ! (i + seq_len) then pbs ! i else pbs ! (i + seq_len)"
  have v: "?v = max (pbs ! i) (pbs ! (i + seq_len))" by (simp add: max_def)
  from Cons.prems have i: "i + seq_len < length pbs" "i < length nd"
    and rest: "\<forall>k \<in> set is. k + seq_len < length pbs \<and> k < length (nd[i := ?v])"
    by simp_all
  from Cons.IH [OF rest] obtain out where
    out: "undouble_loop seq_len pbs is (nd[i := ?v]) = Inr out"
      "length out = length nd"
      "\<forall>k < length nd. out ! k =
        (if k \<in> set is then max (pbs ! k) (pbs ! (k + seq_len)) else (nd[i := ?v]) ! k)"
    by auto
  have "undouble_loop seq_len pbs (i # is) nd = Inr out"
    using i out(1) by (simp add: Let_def)
  moreover have "\<forall>k < length nd. out ! k =
        (if k \<in> set (i # is) then max (pbs ! k) (pbs ! (k + seq_len)) else nd ! k)"
    using out(3) i v by (auto simp: nth_list_update)
  ultimately show ?case using out(2) by blast
qed

lemma undouble_max:
  assumes "length acc = 2 * L"
  shows "\<exists>prof. undouble L acc = Inr prof \<and> length prof = L \<and>
           (\<forall>i < L. prof ! i = max (acc ! i) (acc ! (i + L)))"
  using undouble_loop_eq [of "[0..<L]" L acc "replicate L 0"] assms
  by (auto simp: undouble_def)

lemma accumulate_length:
  "accumulate W T alns pbs = Inr out \<Longrightarrow> length out = length pbs"
proof (induction alns arbitrary: pbs)
  case Nil
  then show ?case by simp
next
  case (Cons a alns)
  then show ?case
    by (auto split: sum.splits dest: add_alignment_scores_length)
qed

text \<open>
  Claim C3. For a circular sequence of length \<open>L\<close> the accumulator has length \<open>2 * L\<close>;
  once the kept alignments are accumulated into it, the function returns a profile
  of length \<open>L\<close> whose entry at every \<open>i < L\<close> is the larger of the accumulator's entries
  at \<open>i\<close> and at \<open>i + L\<close>.
\<close>

theorem circular_profile_is_max_of_halves:
  assumes "accumulate W T (snd (reference_and_alignments align seq reads True threads))
             (replicate (length (seq @ seq)) 0) = Inr acc"
  shows "length acc = 2 * length seq \<and>
         (\<exists>prof. get_one_seq_per_base_scores W T align seq reads True threads = Inr prof \<and>
            length prof = length seq \<and>
            (\<forall>i < length seq. prof ! i = max (acc ! i) (acc ! (i + length seq))))"
proof -
  have len: "length acc = 2 * length seq"
    using accumulate_length [OF assms] by simp
  have ref: "fst (reference_and_alignments align seq reads True threads) = seq @ seq"
    by (simp add: reference_and_alignments_def Let_def)
  have "get_one_seq_per_base_scores W T align seq reads True threads
          = undouble (length seq) acc"
    using assms ref
    by (simp add: get_one_seq_per_base_scores_def Let_def split_beta)
  with undouble_max [OF len] len show ?thesis by simp
qed

theorem circular_profile_is_max_of_halves_witness:
  "accumulate 1 1
     (snd (reference_and_alignments
        (constant_aligner [\<lparr>ref_start = 1, ref_end = 4, cigar = ''3=''\<rparr>,
                           \<lparr>ref_start = 0, ref_end = 1, cigar = ''1=''\<rparr>])
        ''AC'' () True ()))
     (replicate (length (''AC'' @ ''AC'')) 0) = Inr [1, 1, 2, 1] \<and>
   get_one_seq_per_base_scores 1 1
     (constant_aligner [\<lparr>ref_start = 1, ref_end = 4, cigar = ''3=''\<rparr>,
                        \<lparr>ref_start = 0, ref_end = 1, cigar = ''1=''\<rparr>])
     ''AC'' () True () = Inr [2, 1]"
proof -
  have h: "accumulate 1 1
     (snd (reference_and_alignments
        (constant_aligner [\<lparr>ref_start = 1, ref_end = 4, cigar = ''3=''\<rparr>,
                           \<lparr>ref_start = 0, ref_end = 1, cigar = ''1=''\<rparr>])
        ''AC'' () True ()))
     (replicate (length (''AC'' @ ''AC'')) 0) = Inr [1, 1, 2, 1]"
    by code_simp
  from circular_profile_is_max_of_halves [OF h] obtain prof where
    p: "get_one_seq_per_base_scores 1 1
     (constant_aligner [\<lparr>ref_start = 1, ref_end = 4, cigar = ''3=''\<rparr>,
                        \<lparr>ref_start = 0, ref_end = 1, cigar = ''1=''\<rparr>])
     ''AC'' () True () = Inr prof"
    and l: "length prof = 2"
    and v: "\<forall>i < 2. prof ! i = max ([1, 1, 2, 1 :: int] ! i) ([1, 1, 2, 1] ! (i + 2))"
    by auto
  from v have "prof ! 0 = 2" "prof ! 1 = 1" by simp_all
  with l have "prof = [2, 1]"
    by (cases prof; cases "tl prof") auto
  with p h show ?thesis by simp
qed

subsection \<open>The alignments that are scored\<close>



subsection \<open>The CIGAR expander\<close>

lemma write_run_eq:
  "i + n \<le> length xs \<Longrightarrow>
   write_run n v (xs, i) = Inr (take i xs @ replicate n v @ drop (i + n) xs, i + n)"
proof (induction n arbitrary: xs i)
  case 0
  then show ?case by simp
next
  case (Suc n)
  then have i: "i < length xs" and fits: "Suc i + n \<le> length (xs[i := v])"
    by simp_all
  have "take (Suc i) (xs[i := v]) = take i xs @ [v]"
    using i by (simp add: take_Suc_conv_app_nth)
  then show ?case
    using i Suc.IH [OF fits] by simp
qed

lemma match_token_op:
  "match_token s = Some (tok, rest) \<Longrightarrow> tok \<noteq> [] \<and> is_op (last tok)"
  by (auto simp: match_token_def Let_def split: list.splits if_splits)

lemma re_findall_op:
  "tok \<in> set (re_findall s) \<Longrightarrow> tok \<noteq> [] \<and> is_op (last tok)"
proof (induction s rule: re_findall.induct)
  case 1
  then show ?case by simp
next
  case (2 c cs)
  show ?case
  proof (cases "match_token (c # cs)")
    case None
    with 2 show ?thesis by simp
  next
    case (Some m)
    obtain t rest where m: "m = (t, rest)" by (cases m)
    with Some 2 match_token_op [of "c # cs" t rest] show ?thesis by auto
  qed
qed

lemma cigar_parts_op: "(num, letter) \<in> set (cigar_parts s) \<Longrightarrow> is_op letter"
  by (auto simp: cigar_parts_def dest: re_findall_op)

lemma letter_code_op: "is_op letter \<Longrightarrow> \<exists>v. letter_code letter = Some v"
  by (auto simp: is_op_def letter_code_def)

lemma expand_parts_eq:
  "\<forall>(num, letter) \<in> set ps. is_op letter \<Longrightarrow>
   i + sum_list (map fst ps) \<le> length xs \<Longrightarrow>
   expand_parts ps (xs, i) =
     Inr (take i xs @ expansion ps @ drop (i + sum_list (map fst ps)) xs,
          i + sum_list (map fst ps))"
proof (induction ps arbitrary: xs i)
  case Nil
  then show ?case by (simp add: expansion_def)
next
  case (Cons p ps)
  obtain num letter where p: "p = (num, letter)" by (cases p)
  with Cons.prems(1) obtain v where v: "letter_code letter = Some v"
    using letter_code_op [of letter] by auto
  let ?xs = "take i xs @ replicate num v @ drop (i + num) xs"
  from Cons.prems(2) p have fits: "i + num \<le> length xs"
    and rest: "(i + num) + sum_list (map fst ps) \<le> length ?xs"
    by simp_all
  have ops: "\<forall>(num, letter) \<in> set ps. is_op letter"
    using Cons.prems(1) by simp
  have t: "take (i + num) ?xs = take i xs @ replicate num v"
    using fits by simp
  have d: "drop (i + num + sum_list (map fst ps)) ?xs
             = drop (i + num + sum_list (map fst ps)) xs"
    using fits by (simp add: add.commute)
  have e: "expansion (p # ps) = replicate num v @ expansion ps"
    using p v by (simp add: expansion_def)
  show ?case
    using p v write_run_eq [OF fits, of v] Cons.IH [OF ops rest]
    unfolding t d e by (simp add: add.assoc)
qed

lemma length_expansion:
  "\<forall>(num, letter) \<in> set ps. is_op letter \<Longrightarrow>
   length (expansion ps) = sum_list (map fst ps)"
proof (induction ps)
  case Nil
  then show ?case by (simp add: expansion_def)
next
  case (Cons p ps)
  obtain num letter where p: "p = (num, letter)" by (cases p)
  with Cons.prems obtain v where v: "letter_code letter = Some v"
    using letter_code_op [of letter] by auto
  have "expansion (p # ps) = replicate num v @ expansion ps"
    using p v by (simp add: expansion_def)
  with Cons p show ?case by simp
qed

lemma get_expanded_cigar_eq:
  "get_expanded_cigar a = Inr (expansion (cigar_parts (cigar a)))"
proof -
  let ?ps = "cigar_parts (cigar a)"
  let ?n = "sum_list (map fst ?ps)"
  have ops: "\<forall>(num, letter) \<in> set ?ps. is_op letter"
    using cigar_parts_op by auto
  have "expand_parts ?ps (replicate ?n 0, 0) = Inr (expansion ?ps, ?n)"
    using expand_parts_eq [OF ops, of 0 "replicate ?n 0"] by simp
  then show ?thesis
    by (simp add: get_expanded_cigar_def Let_def)
qed

lemma match_token_junk:
  assumes "\<not> is_digit c" and "\<not> is_op c"
  shows "match_token (s @ c # t) =
           map_option (\<lambda>(tok, rest). (tok, rest @ c # t)) (match_token s)"
proof (cases "dropWhile is_digit s")
  case Nil
  then have all: "\<forall>x \<in> set s. is_digit x"
    by (simp add: dropWhile_eq_Nil_conv)
  then have "dropWhile is_digit (s @ c # t) = c # t"
    using assms(1) by (simp add: dropWhile_append2)
  then have "match_token (s @ c # t) = None"
    using assms(2) by (simp add: match_token_def)
  moreover have "match_token s = None"
    unfolding match_token_def Let_def Nil by simp
  ultimately show ?thesis by simp
next
  case (Cons d rest)
  then have d: "d \<in> set s" "\<not> is_digit d"
    by (metis list.set_intros(1) set_dropWhileD, metis hd_dropWhile list.sel(1) list.distinct(1))
  then have "dropWhile is_digit (s @ c # t) = d # rest @ c # t"
    and "takeWhile is_digit (s @ c # t) = takeWhile is_digit s"
    using Cons by (simp_all add: dropWhile_append1 takeWhile_append1)
  then show ?thesis
    using Cons by (simp add: match_token_def Let_def)
qed

lemma re_findall_junk:
  assumes "\<not> is_digit c" and "\<not> is_op c"
  shows "re_findall (s @ c # t) = re_findall s @ re_findall t"
proof (induction s rule: re_findall.induct)
  case 1
  have "match_token (c # t) = None"
    using assms(1) by (simp add: match_token_def)
  then show ?case by simp
next
  case (2 x xs)
  show ?case
  proof (cases "match_token (x # xs)")
    case None
    then have "match_token ((x # xs) @ c # t) = None"
      using match_token_junk [OF assms, of "x # xs" t] by simp
    then show ?thesis
      using None 2(1) [OF None] by simp
  next
    case (Some m)
    obtain tok rest where m: "m = (tok, rest)" by (cases m)
    then have "match_token ((x # xs) @ c # t) = Some (tok, rest @ c # t)"
      using Some match_token_junk [OF assms, of "x # xs" t] by simp
    then show ?thesis
      using Some m 2(2) [OF Some m [symmetric]] by simp
  qed
qed

lemma cigar_parts_junk:
  assumes "\<not> is_digit c" and "\<not> is_op c"
  shows "cigar_parts (s @ c # t) = cigar_parts s @ cigar_parts t"
  by (simp add: cigar_parts_def re_findall_junk [OF assms])

text \<open>
  Claim C5, as the code has it. For an ASCII CIGAR string the expander raises no
  error for a token that matches no operation: the scan skips every character outside
  a match, so that a character that is neither a digit nor one of the four letters
  contributes nothing and only separates the text before it from the text after it.
  What is returned is the expansion of the matched tokens, all of which end in one of
  the letters \<^verbatim>\<open>I\<close>, \<^verbatim>\<open>D\<close>, \<^verbatim>\<open>X\<close>, \<^verbatim>\<open>=\<close>, so the \<^verbatim>\<open>assert False\<close> branch is never taken.
  The only errors come from the interpreter's limits on the matched counts:
  \<^verbatim>\<open>ValueError\<close> from \<^verbatim>\<open>int\<close> for a count with more digits than the conversion limit,
  \<^verbatim>\<open>OverflowError\<close> or \<^verbatim>\<open>MemoryError\<close> from \<^verbatim>\<open>[0] * expanded_cigar_size\<close>.
\<close>

theorem expander_skips_malformed_tokens:
  assumes "\<forall>c \<in> set (cigar a). is_ascii c"
  shows "get_expanded_cigar_limited lim a =
     (if list_ex (too_many_digits lim) (re_findall (cigar a)) then Inl ValueError
      else if maxsize lim < sum_list (map fst (cigar_parts (cigar a))) then Inl OverflowError
      else if capacity lim < sum_list (map fst (cigar_parts (cigar a))) then Inl MemoryError
      else Inr (expansion (cigar_parts (cigar a)))) \<and>
   (\<forall>(num, letter) \<in> set (cigar_parts (cigar a)). letter \<in> set ''IDX='') \<and>
   (\<forall>s c t. cigar a = s @ c # t \<and> \<not> is_digit c \<and> \<not> is_op c \<longrightarrow>
      cigar_parts (cigar a) = cigar_parts s @ cigar_parts t)"
proof (intro conjI)
  show "get_expanded_cigar_limited lim a =
     (if list_ex (too_many_digits lim) (re_findall (cigar a)) then Inl ValueError
      else if maxsize lim < sum_list (map fst (cigar_parts (cigar a))) then Inl OverflowError
      else if capacity lim < sum_list (map fst (cigar_parts (cigar a))) then Inl MemoryError
      else Inr (expansion (cigar_parts (cigar a))))"
    by (simp add: get_expanded_cigar_limited_def Let_def get_expanded_cigar_eq)
  show "\<forall>(num, letter) \<in> set (cigar_parts (cigar a)). letter \<in> set ''IDX=''"
    using cigar_parts_op by (auto simp: is_op_def)
  show "\<forall>s c t. cigar a = s @ c # t \<and> \<not> is_digit c \<and> \<not> is_op c \<longrightarrow>
      cigar_parts (cigar a) = cigar_parts s @ cigar_parts t"
    using cigar_parts_junk by auto
qed

theorem expander_skips_malformed_tokens_witness:
  "get_expanded_cigar_limited
     \<lparr>int_max_str_digits = 4300, maxsize = 9223372036854775807, capacity = 1000000\<rparr>
     \<lparr>ref_start = 0, ref_end = 5, cigar = ''2=1Z1X7 1I0D2D''\<rparr>
     = Inr [0, 0, 1, 2, 3, 3] \<and>
   cigar_parts ''2=1Z1X7 1I0D2D''
     = [(2, CHR ''=''), (1, CHR ''X''), (1, CHR ''I''), (0, CHR ''D''), (2, CHR ''D'')] \<and>
   cigar_parts ''2=1Z1X7 1I0D2D'' = cigar_parts ''2=1Z1X7'' @ cigar_parts ''1I0D2D''"
proof -
  let ?a = "\<lparr>ref_start = 0, ref_end = 5, cigar = ''2=1Z1X7 1I0D2D''\<rparr>"
  let ?lim = "\<lparr>int_max_str_digits = 4300, maxsize = 9223372036854775807,
               capacity = 1000000\<rparr>"
  have ascii: "\<forall>c \<in> set (cigar ?a). is_ascii c"
    by (simp add: is_ascii_def)
  have parts: "cigar_parts ''2=1Z1X7 1I0D2D''
     = [(2, CHR ''=''), (1, CHR ''X''), (1, CHR ''I''), (0, CHR ''D''), (2, CHR ''D'')]"
    by code_simp
  have ex: "expansion
     [(2, CHR ''=''), (1, CHR ''X''), (1, CHR ''I''), (0, CHR ''D''), (2, CHR ''D'')]
     = [0, 0, 1, 2, 3, 3]"
    by code_simp
  have toks: "re_findall ''2=1Z1X7 1I0D2D'' = [''2='', ''1X'', ''1I'', ''0D'', ''2D'']"
    by code_simp
  have short: "\<not> list_ex (too_many_digits ?lim) (re_findall ''2=1Z1X7 1I0D2D'')"
    unfolding toks by (simp add: too_many_digits_def)
  have junk: "\<not> is_digit CHR '' ''" "\<not> is_op CHR '' ''"
    by (simp_all add: is_digit_def is_op_def)
  have split: "''2=1Z1X7 1I0D2D'' = ''2=1Z1X7'' @ CHR '' '' # ''1I0D2D''"
    by simp
  from expander_skips_malformed_tokens [OF ascii, of ?lim]
  have run: "get_expanded_cigar_limited ?lim ?a = Inr [0, 0, 1, 2, 3, 3]"
    and sep: "\<forall>s c t. ''2=1Z1X7 1I0D2D'' = s @ c # t \<and> \<not> is_digit c \<and> \<not> is_op c \<longrightarrow>
      cigar_parts ''2=1Z1X7 1I0D2D'' = cigar_parts s @ cigar_parts t"
    using parts ex short by simp_all
  from sep split junk
  have "cigar_parts ''2=1Z1X7 1I0D2D'' = cigar_parts ''2=1Z1X7'' @ cigar_parts ''1I0D2D''"
    by blast
  with run parts show ?thesis by simp
qed

text \<open>
  The token \<^verbatim>\<open>3S\<close> matches no operation letter; the expander drops it and returns the
  expansion of \<^verbatim>\<open>2=\<close>.
\<close>

theorem malformed_token_is_skipped:
  "get_expanded_cigar \<lparr>ref_start = 0, ref_end = 2, cigar = ''3S2=''\<rparr> = Inr [0, 0]"
  by code_simp

text \<open>
  A count above \<^verbatim>\<open>sys.maxsize\<close> of a 64-bit interpreter: the list cannot be built.
\<close>

theorem huge_count_overflows:
  "get_expanded_cigar_limited
     \<lparr>int_max_str_digits = 4300, maxsize = 9223372036854775807, capacity = 1000000\<rparr>
     \<lparr>ref_start = 0, ref_end = 1, cigar = ''99999999999999999999=''\<rparr>
     = Inl OverflowError"
proof -
  have toks: "re_findall ''99999999999999999999='' = [''99999999999999999999='']"
    by code_simp
  have count: "py_int ''99999999999999999999'' = 99999999999999999999"
    by (simp add: py_int_def digit_value_def)
  have sel: "cigar \<lparr>ref_start = 0, ref_end = 1, cigar = ''99999999999999999999=''\<rparr>
               = ''99999999999999999999=''"
    by simp
  show ?thesis
    unfolding get_expanded_cigar_limited_def cigar_parts_def sel toks
    by (simp add: count too_many_digits_def)
qed

subsection \<open>The window failure detector\<close>

lemma sum_list_indicator:
  "(\<Sum>m\<leftarrow>xs. if Q m then (1::int) else 0) = int (length (filter Q xs))"
  by (induction xs) simp_all

lemma np_full_at_ones:
  assumes "\<forall>x \<in> set ec. 0 \<le> x" and "1 \<le> W"
  shows "np_full_at (map (\<lambda>x. if x > 1 then 1 else x) ec) (replicate W 1) (k + (W - 1) div 2)
         = int (window_nonmatch_count W ec k)"
proof -
  let ?a = "map (\<lambda>x. if x > 1 then 1 else x) ec"
  let ?N = "k + (W - 1) div 2"
  have "(if m \<le> ?N \<and> ?N - m < length (replicate W (1::int))
         then ?a ! m * replicate W 1 ! (?N - m) else 0)
        = (if ec ! m \<noteq> 0 \<and> k \<le> m + W div 2 \<and> m \<le> k + (W - 1) div 2 then 1 else 0)"
    if "m \<in> set [0..<length ?a]" for m
  proof -
    from that have m: "m < length ec" by simp
    then have "0 \<le> ec ! m" using assms(1) by simp
    then have a: "?a ! m = (if ec ! m \<noteq> 0 then 1 else 0)"
      using m by auto
    have w: "(m \<le> ?N \<and> ?N - m < W) \<longleftrightarrow> (k \<le> m + W div 2 \<and> m \<le> k + (W - 1) div 2)"
      using assms(2) by (auto; presburger)
    show ?thesis
      using a w by auto
  qed
  then have "np_full_at ?a (replicate W 1) ?N
        = (\<Sum>m\<leftarrow>[0..<length ?a].
             if ec ! m \<noteq> 0 \<and> k \<le> m + W div 2 \<and> m \<le> k + (W - 1) div 2 then 1 else 0)"
    unfolding np_full_at_def by (intro arg_cong [where f = sum_list] map_cong refl)
  then show ?thesis
    by (simp add: sum_list_indicator window_nonmatch_count_def)
qed

lemma threshold_twice:
  "0 \<le> x \<Longrightarrow>
   (\<lambda>x. if x \<ge> T then 1 else x) ((\<lambda>x. if x < T then 0 else x) x)
     = (if x < T then 0 else (1::int))"
  by auto

lemma get_pass_fail_long:
  assumes "1 \<le> W" and "W \<le> length ec" and "\<forall>x \<in> set ec. 0 \<le> x"
  shows "get_pass_fail W T ec = Inr (failure_mask_spec W T ec)"
proof -
  let ?a = "map (\<lambda>x. if x > 1 then 1 else x) ec"
  have conv: "np_convolve_same ?a (replicate W 1)
        = Inr (map (\<lambda>k. int (window_nonmatch_count W ec k)) [0..<length ec])"
  proof -
    have "ec \<noteq> []" using assms(1,2) by auto
    then show ?thesis
      using assms np_full_at_ones [OF assms(3) assms(1)]
      by (simp add: np_convolve_same_def Let_def)
  qed
  show ?thesis
    unfolding get_pass_fail_def Let_def conv failure_mask_spec_def
    by (simp add: threshold_twice)
qed

lemma get_pass_fail_short:
  assumes "ec \<noteq> []" and "length ec < W"
  shows "\<exists>mask. get_pass_fail W T ec = Inr mask \<and> length mask = W"
  using assms by (simp add: get_pass_fail_def np_convolve_same_def Let_def)

text \<open>
  Claim C4 at an alignment shorter than the window. \<^verbatim>\<open>numpy.convolve\<close> in mode
  \<^verbatim>\<open>'same'\<close> returns as many entries as its longer argument has, so for the CIGAR
  \<^verbatim>\<open>1X3=\<close> and a window of 5 the mask has 5 entries for 4 columns, and its entry for
  the last column is 1 although the window around that column, cut off at the ends of
  the alignment, holds no non-match (the mask of the specification is \<open>[1, 1, 1, 0]\<close>).
  The alignment then scores 0 at its last column.
\<close>

theorem mask_of_short_alignment:
  "get_expanded_cigar \<lparr>ref_start = 0, ref_end = 4, cigar = ''1X3=''\<rparr> = Inr [1, 0, 0, 0] \<and>
   get_pass_fail 5 1 [1, 0, 0, 0] = Inr [1, 1, 1, 1, 0] \<and>
   failure_mask_spec 5 1 [1, 0, 0, 0] = [1, 1, 1, 0] \<and>
   get_alignment_scores 5 1 \<lparr>ref_start = 0, ref_end = 4, cigar = ''1X3=''\<rparr>
     = Inr [0, 0, 0, 0]"
  by code_simp

subsection \<open>One alignment of ten matches\<close>

lemma np_full_at_zero:
  assumes "\<forall>x \<in> set a. x = 0"
  shows "np_full_at a v n = 0" and "np_full_at v a n = 0"
proof -
  have "(\<Sum>m\<leftarrow>[0..<length a].
           if m \<le> n \<and> n - m < length v then a ! m * v ! (n - m) else 0)
        = (\<Sum>m\<leftarrow>[0..<length a]. 0)"
    using assms by (intro arg_cong [where f = sum_list] map_cong refl) simp
  then show "np_full_at a v n = 0"
    by (simp add: np_full_at_def)
  have "(\<Sum>m\<leftarrow>[0..<length v].
           if m \<le> n \<and> n - m < length a then v ! m * a ! (n - m) else 0)
        = (\<Sum>m\<leftarrow>[0..<length v]. 0)"
    using assms by (intro arg_cong [where f = sum_list] map_cong refl) simp
  then show "np_full_at v a n = 0"
    by (simp add: np_full_at_def)
qed

lemma get_pass_fail_all_match:
  assumes "\<forall>x \<in> set ec. x = 0" and "ec \<noteq> []" and "1 \<le> W" and "0 < T"
  shows "get_pass_fail W T ec = Inr (replicate (max (length ec) W) 0)"
proof -
  let ?a = "map (\<lambda>x. if x > 1 then 1 else x) ec"
  have z: "\<forall>x \<in> set ?a. x = 0" using assms(1) by auto
  have "np_convolve_same ?a (replicate W 1) = Inr (replicate (max (length ec) W) 0)"
    using assms(2,3) np_full_at_zero [OF z]
    by (auto simp: np_convolve_same_def Let_def map_replicate_const max_def)
  then show ?thesis
    using assms(4) by (simp add: get_pass_fail_def)
qed

lemma cigar_scores_loop_mask_cong:
  "\<forall>i \<in> set is. i < length pf \<and> i < length pf' \<and> pf ! i = pf' ! i \<Longrightarrow>
   cigar_scores_loop ec pf is st = cigar_scores_loop ec pf' is st"
proof (induction "is" arbitrary: st)
  case Nil
  then show ?case by (cases st) simp
next
  case (Cons i "is")
  obtain scores score where st: "st = (scores, score)" by (cases st)
  have "next_score ec pf i score = next_score ec pf' i score"
    using Cons.prems by (simp add: next_score_def)
  moreover have "\<forall>i \<in> set is. i < length pf \<and> i < length pf' \<and> pf ! i = pf' ! i"
    using Cons.prems by simp
  ultimately show ?case
    using Cons.IH st by (simp split: sum.splits)
qed

text \<open>
  Claim C9. For the alignment with \<open>ref_start = 0\<close>, \<open>ref_end = 10\<close> and CIGAR \<^verbatim>\<open>10=\<close>,
  whatever the window is, and for every threshold above 0 (every window holds 0
  non-matches, so none reaches it): the mask passes every column, the forward score
  climbs from 1 to 10, the reverse score falls from 10 to 1, and the alignment's
  combined score is \<open>[1, 2, 3, 4, 5, 5, 4, 3, 2, 1]\<close>.
\<close>

theorem ten_matches_score_ramp:
  assumes "1 \<le> W" and "0 < T"
  shows "\<exists>ec pf.
     get_expanded_cigar \<lparr>ref_start = 0, ref_end = 10, cigar = ''10=''\<rparr> = Inr ec \<and>
     get_pass_fail W T ec = Inr pf \<and>
     (\<forall>i < length ec. pf ! i = 0) \<and>
     get_cigar_scores_forward ec pf = Inr [1, 2, 3, 4, 5, 6, 7, 8, 9, 10] \<and>
     get_cigar_scores_reverse ec pf = Inr [10, 9, 8, 7, 6, 5, 4, 3, 2, 1] \<and>
     get_alignment_scores W T \<lparr>ref_start = 0, ref_end = 10, cigar = ''10=''\<rparr>
       = Inr [1, 2, 3, 4, 5, 5, 4, 3, 2, 1]"
proof -
  let ?a = "\<lparr>ref_start = 0, ref_end = 10, cigar = ''10=''\<rparr>"
  let ?ec = "[0, 0, 0, 0, 0, 0, 0, 0, 0, 0 :: int]"
  let ?pf = "replicate (max (length ?ec) W) (0::int)"
  have ec: "get_expanded_cigar ?a = Inr ?ec"
    by code_simp
  have pf: "get_pass_fail W T ?ec = Inr ?pf"
    by (rule get_pass_fail_all_match) (use assms in simp_all)
  have same: "\<forall>i \<in> set is. i < length ?pf \<and> i < length ?ec \<and> ?pf ! i = ?ec ! i"
    if "set is \<subseteq> {0..<10}" for "is"
  proof
    fix i assume "i \<in> set is"
    with that have i: "i < 10" by auto
    then have "?ec ! i \<in> set ?ec" by (intro nth_mem) simp
    then have "?ec ! i = 0" by simp
    with i show "i < length ?pf \<and> i < length ?ec \<and> ?pf ! i = ?ec ! i"
      by simp
  qed
  have "get_cigar_scores_forward ?ec ?pf = get_cigar_scores_forward ?ec ?ec"
    unfolding get_cigar_scores_forward_def
    by (rule cigar_scores_loop_mask_cong, rule same) simp
  also have "\<dots> = Inr [1, 2, 3, 4, 5, 6, 7, 8, 9, 10]"
    by code_simp
  finally have fw: "get_cigar_scores_forward ?ec ?pf = Inr [1, 2, 3, 4, 5, 6, 7, 8, 9, 10]" .
  have "get_cigar_scores_reverse ?ec ?pf = get_cigar_scores_reverse ?ec ?ec"
    unfolding get_cigar_scores_reverse_def
    by (rule cigar_scores_loop_mask_cong, rule same) simp
  also have "\<dots> = Inr [10, 9, 8, 7, 6, 5, 4, 3, 2, 1]"
    by code_simp
  finally have bw: "get_cigar_scores_reverse ?ec ?pf = Inr [10, 9, 8, 7, 6, 5, 4, 3, 2, 1]" .
  have cb: "combine_forward_and_reverse_scores ?a [1, 2, 3, 4, 5, 6, 7, 8, 9, 10]
              [10, 9, 8, 7, 6, 5, 4, 3, 2, 1] ?ec = Inr [1, 2, 3, 4, 5, 5, 4, 3, 2, 1]"
    by code_simp
  have all: "get_alignment_scores W T ?a = Inr [1, 2, 3, 4, 5, 5, 4, 3, 2, 1]"
    unfolding get_alignment_scores_def by (simp only: ec pf fw bw cb sum.case)
  have "\<forall>i < length ?ec. ?pf ! i = 0" by simp
  with ec pf fw bw all show ?thesis by blast
qed

theorem ten_matches_score_ramp_witness:
  "(1::nat) \<le> 3 \<and> (0::int) < 2 \<and>
   get_alignment_scores 3 2 \<lparr>ref_start = 0, ref_end = 10, cigar = ''10=''\<rparr>
     = Inr [1, 2, 3, 4, 5, 5, 4, 3, 2, 1]"
  using ten_matches_score_ramp [of 3 2] by auto

subsection \<open>Scores are never negative\<close>

lemma next_score_nonneg:
  "next_score ec pf i s = Inr s' \<Longrightarrow> 0 \<le> s \<Longrightarrow> 0 \<le> s'"
  by (auto simp: next_score_def split: if_splits)

lemma cigar_scores_loop_nonneg:
  "cigar_scores_loop ec pf is (scores, score) = Inr out \<Longrightarrow> 0 \<le> score \<Longrightarrow>
   \<forall>x \<in> set scores. 0 \<le> x \<Longrightarrow> \<forall>x \<in> set out. 0 \<le> x"
proof (induction "is" arbitrary: scores score)
  case Nil
  then show ?case by simp
next
  case (Cons i "is")
  from Cons.prems(1) obtain s' where
    s': "next_score ec pf i score = Inr s'" and
    rest: "cigar_scores_loop ec pf is (scores[i := s'], s') = Inr out"
    by (auto split: sum.splits if_splits)
  have nn: "0 \<le> s'" using next_score_nonneg [OF s' Cons.prems(2)] .
  have "\<forall>x \<in> set (scores[i := s']). 0 \<le> x"
    using Cons.prems(3) nn set_update_subset_insert [of scores i s'] by auto
  from Cons.IH [OF rest nn this] show ?case .
qed

lemma directional_scores_nonneg:
  "get_cigar_scores_forward ec pf = Inr fs \<Longrightarrow> \<forall>x \<in> set fs. 0 \<le> x"
  "get_cigar_scores_reverse ec pf = Inr rs \<Longrightarrow> \<forall>x \<in> set rs. 0 \<le> x"
  unfolding get_cigar_scores_forward_def get_cigar_scores_reverse_def
  by (erule cigar_scores_loop_nonneg; simp)+

lemma combine_loop_nonneg:
  "combine_loop rs ec ps (final, j) = Inr (out, j') \<Longrightarrow> \<forall>x \<in> set final. 0 \<le> x \<Longrightarrow>
   \<forall>x \<in> set rs. 0 \<le> x \<Longrightarrow> \<forall>(i, f) \<in> set ps. 0 \<le> f \<Longrightarrow> \<forall>x \<in> set out. 0 \<le> x"
proof (induction ps arbitrary: final j)
  case Nil
  then show ?case by simp
next
  case (Cons p ps)
  obtain i f where p: "p = (i, f)" by (cases p)
  from Cons.prems(4) p have f: "0 \<le> f" and fs: "\<forall>(i, f) \<in> set ps. 0 \<le> f" by auto
  from Cons.prems(1) p have i: "i < length rs"
    by (auto split: if_splits)
  then have r: "0 \<le> rs ! i" using Cons.prems(3) by simp
  show ?case
  proof (cases "ec ! i \<noteq> 2")
    case False
    with Cons.prems(1) p have "combine_loop rs ec ps (final, j) = Inr (out, j')"
      by (auto simp: Let_def split: if_splits)
    from Cons.IH [OF this Cons.prems(2,3) fs] show ?thesis .
  next
    case True
    let ?v = "if f < rs ! i then f else rs ! i"
    from True Cons.prems(1) p
    have run: "combine_loop rs ec ps (final[j := ?v], Suc j) = Inr (out, j')"
      by (auto simp: Let_def split: if_splits)
    have "0 \<le> ?v" using f r by simp
    then have "\<forall>x \<in> set (final[j := ?v]). 0 \<le> x"
      using Cons.prems(2) set_update_subset_insert [of final j ?v] by auto
    from Cons.IH [OF run this Cons.prems(3) fs] show ?thesis .
  qed
qed

lemma combine_nonneg:
  assumes "combine_forward_and_reverse_scores a fs rs ec = Inr out"
    and "\<forall>x \<in> set fs. 0 \<le> x" and "\<forall>x \<in> set rs. 0 \<le> x"
  shows "\<forall>x \<in> set out. 0 \<le> x"
proof -
  from assms(1) obtain j where
    "combine_loop rs ec (enumerate 0 fs)
       (replicate (nat (ref_end a - ref_start a)) 0, 0) = Inr (out, j)"
    by (auto simp: combine_forward_and_reverse_scores_def Let_def
        split: if_splits sum.splits)
  moreover have "\<forall>(i, f) \<in> set (enumerate 0 fs). 0 \<le> f"
    using assms(2) by (auto simp: enumerate_eq_zip dest: set_zip_rightD)
  ultimately show ?thesis
    using combine_loop_nonneg [of rs ec "enumerate 0 fs" _ 0 out j] assms(3) by simp
qed

lemma get_alignment_scores_nonneg:
  assumes "get_alignment_scores W T a = Inr sc"
  shows "\<forall>x \<in> set sc. 0 \<le> x"
proof -
  from assms obtain ec pf fs rs where
    "get_cigar_scores_forward ec pf = Inr fs"
    "get_cigar_scores_reverse ec pf = Inr rs"
    "combine_forward_and_reverse_scores a fs rs ec = Inr sc"
    by (auto simp: get_alignment_scores_def split: sum.splits)
  then show ?thesis
    using combine_nonneg directional_scores_nonneg by blast
qed

lemma add_alignment_scores_nonneg:
  "add_alignment_scores start ps pbs = Inr out \<Longrightarrow> \<forall>x \<in> set pbs. 0 \<le> x \<Longrightarrow>
   \<forall>(j, s) \<in> set ps. 0 \<le> s \<Longrightarrow> \<forall>x \<in> set out. 0 \<le> x"
proof (induction ps arbitrary: pbs)
  case Nil
  then show ?case by simp
next
  case (Cons q ps)
  obtain j s where q: "q = (j, s)" by (cases q)
  from Cons.prems(1) q obtain p where
    p: "py_index pbs (start + int j) = Some p" and
    run: "add_alignment_scores start ps (pbs[p := pbs ! p + s]) = Inr out"
    by (auto simp: Let_def split: option.splits)
  have "p < length pbs" using py_index_bound [OF p] .
  then have "0 \<le> pbs ! p + s" using Cons.prems(2,3) q by auto
  then have "\<forall>x \<in> set (pbs[p := pbs ! p + s]). 0 \<le> x"
    using Cons.prems(2) set_update_subset_insert [of pbs p "pbs ! p + s"] by auto
  moreover have "\<forall>(j, s) \<in> set ps. 0 \<le> s" using Cons.prems(3) by simp
  ultimately show ?case using Cons.IH [OF run] by blast
qed

lemma accumulate_nonneg:
  "accumulate W T alns pbs = Inr out \<Longrightarrow> \<forall>x \<in> set pbs. 0 \<le> x \<Longrightarrow> \<forall>x \<in> set out. 0 \<le> x"
proof (induction alns arbitrary: pbs)
  case Nil
  then show ?case by simp
next
  case (Cons a alns)
  from Cons.prems(1) obtain sc pbs' where
    sc: "get_alignment_scores W T a = Inr sc" and
    add: "add_alignment_scores (ref_start a) (enumerate 0 sc) pbs = Inr pbs'" and
    run: "accumulate W T alns pbs' = Inr out"
    by (auto split: sum.splits)
  have "\<forall>(j, s) \<in> set (enumerate 0 sc). 0 \<le> s"
    using get_alignment_scores_nonneg [OF sc]
    by (auto simp: enumerate_eq_zip dest: set_zip_rightD)
  from add_alignment_scores_nonneg [OF add Cons.prems(2) this] Cons.IH [OF run]
  show ?case by blast
qed

lemma undouble_nonneg:
  assumes "undouble L acc = Inr prof" and "length acc = 2 * L" and "\<forall>x \<in> set acc. 0 \<le> x"
  shows "\<forall>x \<in> set prof. 0 \<le> x"
proof -
  from undouble_max [OF assms(2)] assms(1) have
    len: "length prof = L" and
    val: "\<forall>i < L. prof ! i = max (acc ! i) (acc ! (i + L))"
    by auto
  show ?thesis
  proof
    fix x assume "x \<in> set prof"
    then obtain i where i: "i < L" and x: "x = prof ! i"
      using len by (auto simp: in_set_conv_nth)
    then have "0 \<le> acc ! i" using assms(2,3) by simp
    with val i x show "0 \<le> x" by simp
  qed
qed

lemma profile_shape:
  assumes "get_one_seq_per_base_scores W T align seq reads circular threads = Inr prof"
  shows "length prof = length seq \<and> (\<forall>x \<in> set prof. 0 \<le> x)"
proof -
  obtain ref_seq alns where
    ra: "reference_and_alignments align seq reads circular threads = (ref_seq, alns)"
    by (cases "reference_and_alignments align seq reads circular threads")
  then have ref: "ref_seq = (if circular then seq @ seq else seq)"
    by (auto simp: reference_and_alignments_def Let_def split: if_splits)
  from assms ra obtain acc where
    acc: "accumulate W T alns (replicate (length ref_seq) 0) = Inr acc" and
    fin: "(if circular then undouble (length seq) acc else Inr acc) = Inr prof"
    by (auto simp: get_one_seq_per_base_scores_def Let_def split: sum.splits)
  have len: "length acc = length ref_seq"
    using accumulate_length [OF acc] by simp
  have nn: "\<forall>x \<in> set acc. 0 \<le> x"
    using accumulate_nonneg [OF acc] by simp
  show ?thesis
  proof (cases circular)
    case False
    with fin len ref nn show ?thesis by simp
  next
    case True
    with len ref have l2: "length acc = 2 * length seq" by simp
    from True fin have u: "undouble (length seq) acc = Inr prof" by simp
    from undouble_max [OF l2] u undouble_nonneg [OF u l2 nn] show ?thesis by auto
  qed
qed

subsection \<open>The function returns on alignments that keep the aligner's contract\<close>

lemma get_pass_fail_length:
  assumes "ec \<noteq> []" and "1 \<le> W"
  shows "\<exists>pf. get_pass_fail W T ec = Inr pf \<and> length pf = max (length ec) W"
  using assms by (auto simp: get_pass_fail_def np_convolve_same_def Let_def max_def)

lemma length_combined_spec:
  assumes "length fs = length ec"
  shows "length (combined_spec fs rs ec) = length (filter (\<lambda>v. v \<noteq> 2) ec)"
proof -
  have "filter (\<lambda>v. v \<noteq> 2) (map (\<lambda>i. ec ! i) [0..<length ec])
          = map (\<lambda>i. ec ! i) (filter (\<lambda>i. ec ! i \<noteq> 2) [0..<length ec])"
    by (simp add: filter_map comp_def)
  then have "length (filter (\<lambda>v. v \<noteq> 2) ec)
          = length (filter (\<lambda>i. ec ! i \<noteq> 2) [0..<length ec])"
    by (simp add: map_nth)
  then show ?thesis
    using assms by (simp add: combined_spec_def)
qed

lemma combine_returns:
  assumes "length fs = length rs" and "length fs = length ec"
    and "length (combined_spec fs rs ec) = nat (ref_end a - ref_start a)"
  shows "combine_forward_and_reverse_scores a fs rs ec = Inr (combined_spec fs rs ec)"
proof -
  let ?N = "nat (ref_end a - ref_start a)"
  have sel: "selected rs ec (enumerate 0 fs) = combined_spec fs rs ec"
    by (rule selected_enumerate) (simp add: assms)
  have idx: "\<forall>(i, f) \<in> set (enumerate 0 fs). i < length rs \<and> i < length ec"
    using assms by (auto simp: enumerate_eq_zip dest: set_zip_leftD)
  have "combine_loop rs ec (enumerate 0 fs) (replicate ?N 0, 0)
          = Inr (combined_spec fs rs ec, ?N)"
    using combine_loop_eq [OF idx, of 0 "replicate ?N 0"] assms(3)
    unfolding sel by simp
  then show ?thesis
    using assms(1,3) by (simp add: combine_forward_and_reverse_scores_def)
qed

lemma get_alignment_scores_returns:
  assumes "1 \<le> W" and "alignment_fits n a"
  shows "\<exists>sc. get_alignment_scores W T a = Inr sc \<and>
           int (length sc) = ref_end a - ref_start a"
proof -
  let ?ec = "expansion (cigar_parts (cigar a))"
  let ?init = "(replicate (length ?ec) (0::int), 0::int)"
  have ec: "get_expanded_cigar a = Inr ?ec"
    by (rule get_expanded_cigar_eq)
  have cols: "int (length (filter (\<lambda>v. v \<noteq> 2) ?ec)) = ref_end a - ref_start a"
    and pos: "ref_start a < ref_end a"
    using assms(2) by (simp_all add: alignment_fits_def)
  then have "filter (\<lambda>v. v \<noteq> 2) ?ec \<noteq> []" by auto
  then have ne: "?ec \<noteq> []" by auto
  from get_pass_fail_length [OF ne assms(1), of T] obtain pf where
    pf: "get_pass_fail W T ?ec = Inr pf" and lpf: "length ?ec \<le> length pf"
    by auto
  have "\<exists>out. cigar_scores_loop ?ec pf [0..<length ?ec] ?init = Inr out"
    by (rule cigar_scores_loop_returns) (use lpf in simp)
  then obtain fs where fs: "get_cigar_scores_forward ?ec pf = Inr fs"
    by (auto simp: get_cigar_scores_forward_def)
  have "\<exists>out. cigar_scores_loop ?ec pf (rev [0..<length ?ec]) ?init = Inr out"
    by (rule cigar_scores_loop_returns) (use lpf in simp)
  then obtain rs where rs: "get_cigar_scores_reverse ?ec pf = Inr rs"
    by (auto simp: get_cigar_scores_reverse_def)
  have lfs: "length fs = length ?ec"
    using cigar_scores_loop_length [OF fs [unfolded get_cigar_scores_forward_def]]
    by simp
  have lrs: "length rs = length ?ec"
    using cigar_scores_loop_length [OF rs [unfolded get_cigar_scores_reverse_def]]
    by simp
  have lc: "length (combined_spec fs rs ?ec) = nat (ref_end a - ref_start a)"
    using length_combined_spec [OF lfs, of rs] cols by simp
  have "combine_forward_and_reverse_scores a fs rs ?ec = Inr (combined_spec fs rs ?ec)"
    by (rule combine_returns) (simp_all add: lfs lrs lc)
  then have "get_alignment_scores W T a = Inr (combined_spec fs rs ?ec)"
    unfolding get_alignment_scores_def by (simp only: ec pf fs rs sum.case)
  moreover have "int (length (combined_spec fs rs ?ec)) = ref_end a - ref_start a"
    using lc pos by simp
  ultimately show ?thesis by blast
qed

lemma accumulate_returns:
  assumes "1 \<le> W"
  shows "\<forall>a \<in> set alns. alignment_fits (length pbs) a \<Longrightarrow>
         \<exists>out. accumulate W T alns pbs = Inr out"
proof (induction alns arbitrary: pbs)
  case Nil
  then show ?case by simp
next
  case (Cons a alns)
  then have fits: "alignment_fits (length pbs) a" by simp
  from get_alignment_scores_returns [OF assms fits] obtain sc where
    sc: "get_alignment_scores W T a = Inr sc" and
    lsc: "int (length sc) = ref_end a - ref_start a"
    by blast
  have start: "0 \<le> ref_start a" and "ref_end a \<le> int (length pbs)"
    using fits by (simp_all add: alignment_fits_def)
  then have "nat (ref_start a) + 0 + length sc \<le> length pbs"
    using lsc by linarith
  from add_alignment_scores_in_range [OF start this] obtain pbs' where
    add: "add_alignment_scores (ref_start a) (enumerate 0 sc) pbs = Inr pbs'" and
    len: "length pbs' = length pbs"
    by blast
  have "\<forall>a \<in> set alns. alignment_fits (length pbs') a"
    using Cons.prems len by simp
  from Cons.IH [OF this] sc add show ?case by simp
qed

lemma get_one_seq_per_base_scores_returns:
  assumes "1 \<le> W"
    and "\<forall>a \<in> set (snd (reference_and_alignments align seq reads circular threads)).
           alignment_fits (if circular then 2 * length seq else length seq) a"
  shows "\<exists>prof. get_one_seq_per_base_scores W T align seq reads circular threads = Inr prof"
proof -
  obtain ref_seq alns where
    ra: "reference_and_alignments align seq reads circular threads = (ref_seq, alns)"
    by (cases "reference_and_alignments align seq reads circular threads")
  then have ref: "length ref_seq = (if circular then 2 * length seq else length seq)"
    by (auto simp: reference_and_alignments_def Let_def split: if_splits)
  have "\<forall>a \<in> set alns. alignment_fits (length (replicate (length ref_seq) (0::int))) a"
    using assms(2) ra ref by simp
  from accumulate_returns [OF assms(1) this] obtain acc where
    acc: "accumulate W T alns (replicate (length ref_seq) 0) = Inr acc"
    by blast
  have len: "length acc = length ref_seq"
    using accumulate_length [OF acc] by simp
  show ?thesis
  proof (cases circular)
    case False
    with ra acc show ?thesis
      by (simp add: get_one_seq_per_base_scores_def Let_def)
  next
    case True
    with len ref have "length acc = 2 * length seq" by simp
    from undouble_max [OF this] obtain prof where
      "undouble (length seq) acc = Inr prof" by blast
    with True ra acc show ?thesis
      by (simp add: get_one_seq_per_base_scores_def Let_def)
  qed
qed

text \<open>
  Claim C6. A profile that the function returns, for a linear or a circular sequence,
  has as many entries as the sequence has characters, and none of them is negative.
  Every score of a forward or reverse scan is non-negative as well. The function does
  return a profile when the window has at least one column and the scored alignments
  keep the aligner's contract for the reference, doubled for a circular sequence.
\<close>

theorem profile_is_nonnegative_of_sequence_length:
  "(get_one_seq_per_base_scores W T align seq reads circular threads = Inr prof \<longrightarrow>
      length prof = length seq \<and> (\<forall>x \<in> set prof. 0 \<le> x)) \<and>
   (get_cigar_scores_forward ec pf = Inr fs \<longrightarrow> (\<forall>x \<in> set fs. 0 \<le> x)) \<and>
   (get_cigar_scores_reverse ec pf = Inr rs \<longrightarrow> (\<forall>x \<in> set rs. 0 \<le> x)) \<and>
   (1 \<le> W \<and>
    (\<forall>a \<in> set (snd (reference_and_alignments align seq reads circular threads)).
       alignment_fits (if circular then 2 * length seq else length seq) a) \<longrightarrow>
    (\<exists>p. get_one_seq_per_base_scores W T align seq reads circular threads = Inr p))"
proof (intro conjI impI)
  assume "get_one_seq_per_base_scores W T align seq reads circular threads = Inr prof"
  from profile_shape [OF this]
  show "length prof = length seq" and "\<forall>x \<in> set prof. 0 \<le> x" by simp_all
next
  assume "get_cigar_scores_forward ec pf = Inr fs"
  then show "\<forall>x \<in> set fs. 0 \<le> x" by (rule directional_scores_nonneg)
next
  assume "get_cigar_scores_reverse ec pf = Inr rs"
  then show "\<forall>x \<in> set rs. 0 \<le> x" by (rule directional_scores_nonneg)
next
  assume "1 \<le> W \<and>
    (\<forall>a \<in> set (snd (reference_and_alignments align seq reads circular threads)).
       alignment_fits (if circular then 2 * length seq else length seq) a)"
  then show "\<exists>p. get_one_seq_per_base_scores W T align seq reads circular threads = Inr p"
    using get_one_seq_per_base_scores_returns [of W align seq reads circular threads T]
    by blast
qed

theorem profile_is_nonnegative_of_sequence_length_witness:
  "get_one_seq_per_base_scores 3 2
     (constant_aligner [\<lparr>ref_start = 1, ref_end = 5, cigar = ''2=1I1X1D''\<rparr>,
                        \<lparr>ref_start = 0, ref_end = 3, cigar = ''3=''\<rparr>])
     ''ACG'' () True () = Inr [1, 3, 2] \<and>
   length [1, 3, 2 :: int] = length ''ACG'' \<and>
   get_cigar_scores_forward [0, 0, 2, 1, 3] [0, 0, 0, 0, 0] = Inr [1, 2, 1, 0, 0] \<and>
   get_cigar_scores_reverse [0, 0, 2, 1, 3] [0, 0, 0, 0, 0] = Inr [2, 1, 0, 0, 0] \<and>
   (1::nat) \<le> 3 \<and>
   alignment_fits 6 \<lparr>ref_start = 1, ref_end = 5, cigar = ''2=1I1X1D''\<rparr> \<and>
   alignment_fits 6 \<lparr>ref_start = 0, ref_end = 3, cigar = ''3=''\<rparr>"
proof -
  have run: "get_one_seq_per_base_scores 3 2
     (constant_aligner [\<lparr>ref_start = 1, ref_end = 5, cigar = ''2=1I1X1D''\<rparr>,
                        \<lparr>ref_start = 0, ref_end = 3, cigar = ''3=''\<rparr>])
     ''ACG'' () True () = Inr [1, 3, 2]"
    by code_simp
  have fw: "get_cigar_scores_forward [0, 0, 2, 1, 3] [0, 0, 0, 0, 0] = Inr [1, 2, 1, 0, 0]"
    by code_simp
  have bw: "get_cigar_scores_reverse [0, 0, 2, 1, 3] [0, 0, 0, 0, 0] = Inr [2, 1, 0, 0, 0]"
    by code_simp
  have fits: "alignment_fits 6 \<lparr>ref_start = 1, ref_end = 5, cigar = ''2=1I1X1D''\<rparr>"
    "alignment_fits 6 \<lparr>ref_start = 0, ref_end = 3, cigar = ''3=''\<rparr>"
    by code_simp+
  from profile_is_nonnegative_of_sequence_length
    [of 3 2 "constant_aligner [\<lparr>ref_start = 1, ref_end = 5, cigar = ''2=1I1X1D''\<rparr>,
                        \<lparr>ref_start = 0, ref_end = 3, cigar = ''3=''\<rparr>]"
        "''ACG''" "()" True "()" "[1, 3, 2]" "[0, 0, 2, 1, 3]" "[0, 0, 0, 0, 0]"
        "[1, 2, 1, 0, 0]" "[2, 1, 0, 0, 0]"]
    run fw bw fits
  show ?thesis by simp
qed

subsection \<open>The total of a profile\<close>

lemma sum_list_update_add:
  "p < length xs \<Longrightarrow> sum_list (xs[p := xs ! p + s]) = sum_list xs + (s::int)"
proof (induction xs arbitrary: p)
  case Nil
  then show ?case by simp
next
  case (Cons x xs)
  then show ?case by (cases p) simp_all
qed

lemma add_alignment_scores_sum:
  "add_alignment_scores start ps pbs = Inr out \<Longrightarrow>
   sum_list out = sum_list pbs + sum_list (map snd ps)"
proof (induction ps arbitrary: pbs)
  case Nil
  then show ?case by simp
next
  case (Cons q ps)
  obtain j s where q: "q = (j, s)" by (cases q)
  from Cons.prems q obtain p where
    p: "py_index pbs (start + int j) = Some p" and
    run: "add_alignment_scores start ps (pbs[p := pbs ! p + s]) = Inr out"
    by (auto simp: Let_def split: option.splits)
  have "p < length pbs" using py_index_bound [OF p] .
  then show ?case
    using Cons.IH [OF run] q by (simp add: sum_list_update_add)
qed

lemma map_snd_enumerate: "map snd (enumerate n xs) = xs"
  by (simp add: enumerate_eq_zip)

lemma accumulate_sum:
  "accumulate W T alns pbs = Inr out \<Longrightarrow>
   \<exists>scs. map (get_alignment_scores W T) alns = map Inr scs \<and>
     sum_list out = sum_list pbs + sum_list (map sum_list scs)"
proof (induction alns arbitrary: pbs)
  case Nil
  then show ?case by simp
next
  case (Cons a alns)
  from Cons.prems obtain sc pbs' where
    sc: "get_alignment_scores W T a = Inr sc" and
    add: "add_alignment_scores (ref_start a) (enumerate 0 sc) pbs = Inr pbs'" and
    run: "accumulate W T alns pbs' = Inr out"
    by (auto split: sum.splits)
  from Cons.IH [OF run] obtain scs where
    scs: "map (get_alignment_scores W T) alns = map Inr scs"
      "sum_list out = sum_list pbs' + sum_list (map sum_list scs)"
    by blast
  have "sum_list pbs' = sum_list pbs + sum_list sc"
    using add_alignment_scores_sum [OF add] by (simp add: map_snd_enumerate)
  with scs sc have
    "map (get_alignment_scores W T) (a # alns) = map Inr (sc # scs) \<and>
     sum_list out = sum_list pbs + sum_list (map sum_list (sc # scs))"
    by simp
  then show ?case by blast
qed

lemma undouble_sum_le:
  assumes "undouble L acc = Inr prof" and "length acc = 2 * L" and "\<forall>x \<in> set acc. 0 \<le> x"
  shows "sum_list prof \<le> sum_list acc"
proof -
  from undouble_max [OF assms(2)] assms(1) have
    len: "length prof = L" and
    val: "\<forall>i < L. prof ! i = max (acc ! i) (acc ! (i + L))"
    by auto
  have prof: "prof = map (\<lambda>i. max (acc ! i) (acc ! (i + L))) [0..<L]"
    using len val by (intro nth_equalityI) simp_all
  have lo: "take L acc = map (\<lambda>i. acc ! i) [0..<L]"
    using assms(2) by (intro nth_equalityI) simp_all
  have hi: "drop L acc = map (\<lambda>i. acc ! (i + L)) [0..<L]"
    using assms(2) by (intro nth_equalityI) (simp_all add: add.commute)
  have "sum_list prof \<le> (\<Sum>i\<leftarrow>[0..<L]. acc ! i + acc ! (i + L))"
    unfolding prof
  proof (rule sum_list_mono)
    fix i assume "i \<in> set [0..<L]"
    then have "0 \<le> acc ! i" "0 \<le> acc ! (i + L)"
      using assms(2,3) by simp_all
    then show "max (acc ! i) (acc ! (i + L)) \<le> acc ! i + acc ! (i + L)"
      by simp
  qed
  also have "\<dots> = sum_list (take L acc) + sum_list (drop L acc)"
    unfolding lo hi by (simp add: sum_list_addf)
  also have "\<dots> = sum_list acc"
    by (metis append_take_drop_id sum_list_append)
  finally show ?thesis .
qed

text \<open>
  Claim C8, as the code has it. When the function returns a profile, every scored
  alignment has a combined score. For a linear sequence the entries of the profile
  add up to the sum of all entries of all these combined scores. For a circular
  sequence they add up to at most that sum: the fold keeps the larger entry of the
  two halves and drops the smaller one.
\<close>

theorem profile_total_and_alignment_scores:
  assumes "get_one_seq_per_base_scores W T align seq reads circular threads = Inr prof"
  shows "\<exists>scs.
     map (get_alignment_scores W T)
       (snd (reference_and_alignments align seq reads circular threads)) = map Inr scs \<and>
     (if circular then sum_list prof \<le> sum_list (map sum_list scs)
      else sum_list prof = sum_list (map sum_list scs))"
proof -
  obtain ref_seq alns where
    ra: "reference_and_alignments align seq reads circular threads = (ref_seq, alns)"
    by (cases "reference_and_alignments align seq reads circular threads")
  then have ref: "ref_seq = (if circular then seq @ seq else seq)"
    by (auto simp: reference_and_alignments_def Let_def split: if_splits)
  from assms ra obtain acc where
    acc: "accumulate W T alns (replicate (length ref_seq) 0) = Inr acc" and
    fin: "(if circular then undouble (length seq) acc else Inr acc) = Inr prof"
    by (auto simp: get_one_seq_per_base_scores_def Let_def split: sum.splits)
  from accumulate_sum [OF acc] obtain scs where
    scs: "map (get_alignment_scores W T) alns = map Inr scs" and
    total: "sum_list acc = sum_list (map sum_list scs)"
    by (auto simp: sum_list_replicate)
  have "if circular then sum_list prof \<le> sum_list acc else sum_list prof = sum_list acc"
  proof (cases circular)
    case False
    with fin show ?thesis by simp
  next
    case True
    have "length acc = 2 * length seq"
      using accumulate_length [OF acc] ref True by simp
    moreover have "\<forall>x \<in> set acc. 0 \<le> x"
      using accumulate_nonneg [OF acc] by simp
    moreover have "undouble (length seq) acc = Inr prof"
      using fin True by simp
    ultimately show ?thesis
      using True undouble_sum_le by simp
  qed
  with scs total ra show ?thesis by auto
qed

theorem profile_total_and_alignment_scores_witness:
  "get_one_seq_per_base_scores 3 2
     (constant_aligner [\<lparr>ref_start = 0, ref_end = 3, cigar = ''3=''\<rparr>,
                        \<lparr>ref_start = 1, ref_end = 4, cigar = ''3=''\<rparr>])
     ''ACGT'' () False () = Inr [1, 3, 3, 1] \<and>
   map (get_alignment_scores 3 2)
     (snd (reference_and_alignments
        (constant_aligner [\<lparr>ref_start = 0, ref_end = 3, cigar = ''3=''\<rparr>,
                           \<lparr>ref_start = 1, ref_end = 4, cigar = ''3=''\<rparr>])
        ''ACGT'' () False ()))
     = map Inr [[1, 2, 1], [1, 2, 1]] \<and>
   sum_list [1, 3, 3, 1 :: int] = sum_list (map sum_list [[1, 2, 1], [1, 2, 1 :: int]])"
proof -
  have run: "get_one_seq_per_base_scores 3 2
     (constant_aligner [\<lparr>ref_start = 0, ref_end = 3, cigar = ''3=''\<rparr>,
                        \<lparr>ref_start = 1, ref_end = 4, cigar = ''3=''\<rparr>])
     ''ACGT'' () False () = Inr [1, 3, 3, 1]"
    by code_simp
  have scs: "map (get_alignment_scores 3 2)
     (snd (reference_and_alignments
        (constant_aligner [\<lparr>ref_start = 0, ref_end = 3, cigar = ''3=''\<rparr>,
                           \<lparr>ref_start = 1, ref_end = 4, cigar = ''3=''\<rparr>])
        ''ACGT'' () False ()))
     = map Inr [[1, 2, 1], [1, 2, 1]]"
    by code_simp
  from profile_total_and_alignment_scores [OF run] scs show ?thesis
    using run by simp
qed

text \<open>
  A circular sequence of four characters with one alignment on \<open>[0, 3)\<close> and one over
  the junction on \<open>[3, 6)\<close>: the combined scores add up to 8, the profile to 6.
\<close>

theorem circular_total_is_smaller:
  "get_one_seq_per_base_scores 3 2
     (constant_aligner [\<lparr>ref_start = 0, ref_end = 3, cigar = ''3=''\<rparr>,
                        \<lparr>ref_start = 3, ref_end = 6, cigar = ''3=''\<rparr>])
     ''ACGT'' () True () = Inr [2, 2, 1, 1] \<and>
   get_alignment_scores 3 2 \<lparr>ref_start = 0, ref_end = 3, cigar = ''3=''\<rparr> = Inr [1, 2, 1] \<and>
   get_alignment_scores 3 2 \<lparr>ref_start = 3, ref_end = 6, cigar = ''3=''\<rparr> = Inr [1, 2, 1] \<and>
   sum_list [2, 2, 1, 1 :: int] < sum_list [1, 2, 1] + sum_list [1, 2, 1]"
  by code_simp

end
